theory Spec2Isabelle
  imports Complex_Main
begin


section \<open>JavaScript strings\<close>

text \<open>
  A JavaScript string is a sequence of UTF-16 code units; \<open>length\<close>, \<open>slice\<close>, \<open>trim\<close> and
  the regular expressions of the source (none has the \<open>u\<close> flag) all work on code units.
  A code unit is modelled by its number. \<open>str\<close> turns an ASCII literal into such a string.
\<close>

type_synonym js_string = "nat list"

definition str :: "string \<Rightarrow> js_string" where
  "str cs = map of_char cs"

text \<open>\<open>\w\<close> is \<open>[A-Za-z0-9_]\<close>.\<close>

definition is_word_char :: "nat \<Rightarrow> bool" where
  "is_word_char c \<longleftrightarrow>
     (65 \<le> c \<and> c \<le> 90) \<or> (97 \<le> c \<and> c \<le> 122) \<or> (48 \<le> c \<and> c \<le> 57) \<or> c = 95"

text \<open>
  \<open>\s\<close> and \<open>String.prototype.trim\<close> use the same set: ECMAScript WhiteSpace and
  LineTerminator (TAB, LF, VT, FF, CR, SP, NBSP, U+1680, U+2000..U+200A, LS, PS, U+202F,
  U+205F, U+3000, U+FEFF).
\<close>

definition is_space_char :: "nat \<Rightarrow> bool" where
  "is_space_char c \<longleftrightarrow>
     (9 \<le> c \<and> c \<le> 13) \<or> c = 32 \<or> c = 160 \<or> c = 5760 \<or> (8192 \<le> c \<and> c \<le> 8202) \<or>
     c = 8232 \<or> c = 8233 \<or> c = 8239 \<or> c = 8287 \<or> c = 12288 \<or> c = 65279"

definition trim :: "js_string \<Rightarrow> js_string" where
  "trim s = rev (dropWhile is_space_char (rev (dropWhile is_space_char s)))"

text \<open>
  Canonicalize of the \<open>i\<close> flag without the \<open>u\<close> flag: a code unit is mapped to its upper
  case, except that a non-ASCII code unit is never mapped to an ASCII one. Every character
  written in the patterns of the source is ASCII, so a pattern character and an input
  character have the same canonical form exactly when they are equal up to ASCII letter
  case; on non-ASCII input the upper-casing is therefore left out.
\<close>

definition canonicalize :: "bool \<Rightarrow> nat \<Rightarrow> nat" where
  "canonicalize ignoreCase c = (if ignoreCase \<and> 97 \<le> c \<and> c \<le> 122 then c - 32 else c)"

section \<open>Regular expressions with backtracking priority\<close>

datatype class_item =
    Single nat             \<comment> \<open>a single character\<close>
  | CharRange nat nat       \<comment> \<open>\<open>a-b\<close>\<close>
  | WordChars           \<comment> \<open>\<open>\w\<close>\<close>
  | SpaceChars          \<comment> \<open>\<open>\s\<close>\<close>

datatype regex =
    Chars bool "class_item list"  \<comment> \<open>a character set; the flag is True for a negated set \<open>[^...]\<close>\<close>
  | Empty                           \<comment> \<open>the empty pattern\<close>
  | Cat regex regex
  | Alt regex regex               \<comment> \<open>\<open>a|b\<close>: the left alternative is tried first\<close>
  | Star regex                    \<comment> \<open>greedy \<open>*\<close>\<close>
  | NotAhead regex                \<comment> \<open>\<open>(?!...)\<close>\<close>
  | WordBoundary                  \<comment> \<open>\<open>\b\<close>\<close>
  | LineStart                     \<comment> \<open>\<open>^\<close> without the \<open>m\<close> flag\<close>

fun item_matches :: "bool \<Rightarrow> class_item \<Rightarrow> nat \<Rightarrow> bool" where
  "item_matches ic (Single a) c \<longleftrightarrow> canonicalize ic a = canonicalize ic c"
| "item_matches ic (CharRange a b) c \<longleftrightarrow>
     list_ex (\<lambda>m. canonicalize ic m = canonicalize ic c) [a..<Suc b]"
| "item_matches ic WordChars c \<longleftrightarrow> is_word_char c"
| "item_matches ic SpaceChars c \<longleftrightarrow> is_space_char c"

definition class_matches :: "bool \<Rightarrow> bool \<Rightarrow> class_item list \<Rightarrow> nat \<Rightarrow> bool" where
  "class_matches ic negated items c \<longleftrightarrow> (list_ex (\<lambda>i. item_matches ic i c) items \<noteq> negated)"

text \<open>
  A position in the input is a zipper: the characters before it, nearest first, and the
  characters after it.
\<close>

type_synonym pos = "nat list \<times> nat list"

definition word_before :: "pos \<Rightarrow> bool" where
  "word_before p = (case fst p of [] \<Rightarrow> False | c # _ \<Rightarrow> is_word_char c)"

definition word_after :: "pos \<Rightarrow> bool" where
  "word_after p = (case snd p of [] \<Rightarrow> False | c # _ \<Rightarrow> is_word_char c)"

text \<open>
  \<open>ends ic r p\<close> lists the positions at which a match of \<open>r\<close> that starts at \<open>p\<close> can end, in
  the order in which the backtracking matcher of ECMAScript tries them; the engine takes
  the first one for which the rest of the pattern succeeds. As in ECMAScript, an iteration
  of \<open>*\<close> that consumes nothing is refused.
\<close>

function (sequential) ends :: "bool \<Rightarrow> regex \<Rightarrow> pos \<Rightarrow> pos list" where
  "ends ic (Chars negated items) (b, []) = []"
| "ends ic (Chars negated items) (b, c # a) =
     (if class_matches ic negated items c then [(c # b, a)] else [])"
| "ends ic Empty p = [p]"
| "ends ic (Cat r1 r2) p = concat (map (\<lambda>q. ends ic r2 q) (ends ic r1 p))"
| "ends ic (Alt r1 r2) p = ends ic r1 p @ ends ic r2 p"
| "ends ic (Star r) p =
     concat (map (\<lambda>q. ends ic (Star r) q)
                 (filter (\<lambda>q. length (snd q) < length (snd p)) (ends ic r p))) @ [p]"
| "ends ic (NotAhead r) p = (if ends ic r p = [] then [p] else [])"
| "ends ic WordBoundary p = (if word_before p \<noteq> word_after p then [p] else [])"
| "ends ic LineStart p = (if fst p = [] then [p] else [])"
  by pat_completeness auto
termination
  by (relation "measures [\<lambda>(ic, r, p). size r, \<lambda>(ic, r, p). length (snd p)]") auto

text \<open>The equation of \<open>*\<close> rewrites its own right-hand side; it is applied on request only.\<close>

lemmas ends_Star = ends.simps(6)

declare ends.simps(6) [simp del]

text \<open>
  \<open>String.prototype.replace\<close> with a global pattern: scan from the left, take the leftmost
  match, emit the replacement text and continue behind the match. After an empty match the
  next character is copied and the scan moves on by one. None of the replacement texts of
  the source contains a \<open>$\<close>, so the replacement is a constant string.
\<close>

function replace_from :: "bool \<Rightarrow> regex \<Rightarrow> js_string \<Rightarrow> nat list \<Rightarrow> js_string \<Rightarrow> js_string" where
  "replace_from ic r repl b a =
     (case ends ic r (b, a) of
        [] \<Rightarrow> (case a of [] \<Rightarrow> [] | c # cs \<Rightarrow> c # replace_from ic r repl (c # b) cs)
      | q # _ \<Rightarrow>
          if length (snd q) < length a then repl @ replace_from ic r repl (fst q) (snd q)
          else repl @ (case a of [] \<Rightarrow> [] | c # cs \<Rightarrow> c # replace_from ic r repl (c # b) cs))"
  by pat_completeness auto
termination
  by (relation "measure (\<lambda>(ic, r, repl, b, a). length a)") auto

declare replace_from.simps [simp del]

definition replace_all :: "bool \<Rightarrow> regex \<Rightarrow> js_string \<Rightarrow> js_string \<Rightarrow> js_string" where
  "replace_all ic r repl s = replace_from ic r repl [] s"

text \<open>\<open>RegExp.prototype.test\<close> of a pattern without the \<open>g\<close> flag: is there a match at any start.\<close>

fun test_from :: "bool \<Rightarrow> regex \<Rightarrow> nat list \<Rightarrow> js_string \<Rightarrow> bool" where
  "test_from ic r b [] \<longleftrightarrow> ends ic r (b, []) \<noteq> []"
| "test_from ic r b (c # a) \<longleftrightarrow> ends ic r (b, c # a) \<noteq> [] \<or> test_from ic r (c # b) a"

definition regex_test :: "bool \<Rightarrow> regex \<Rightarrow> js_string \<Rightarrow> bool" where
  "regex_test ic r s = test_from ic r [] s"

subsection \<open>Pattern notation\<close>

definition ch :: "char \<Rightarrow> class_item" where
  "ch c = Single (of_char c)"

definition lit :: "string \<Rightarrow> regex" where
  "lit cs = foldr (\<lambda>c r. Cat (Chars False [ch c]) r) cs Empty"

definition seqs :: "regex list \<Rightarrow> regex" where
  "seqs rs = foldr Cat rs Empty"

definition alts :: "regex list \<Rightarrow> regex" where
  "alts rs = foldr Alt (butlast rs) (last rs)"

definition OneOrMore :: "regex \<Rightarrow> regex" where
  "OneOrMore r = Cat r (Star r)"

definition Opt :: "regex \<Rightarrow> regex" where
  "Opt r = Alt r Empty"

definition quote :: "regex" where \<comment> \<open>the set of the double and the single quote\<close>
  "quote = Chars False [Single 34, Single 39]"

definition not_quote :: "regex" where
  "not_quote = Chars True [Single 34, Single 39]"

definition not_lt :: "regex" where \<comment> \<open>\<open>[^<]\<close>\<close>
  "not_lt = Chars True [ch CHR ''<'']"

definition spaces :: "regex" where \<comment> \<open>\<open>\s*\<close>\<close>
  "spaces = Star (Chars False [SpaceChars])"

section \<open>The string sanitizers\<close>

text \<open>\<open><tag\b[^<]*(?:(?!<\/tag>)<[^<]*)*<\/tag>\<close>, the shape of six patterns of the source.\<close>

definition block_re :: "string \<Rightarrow> regex" where
  "block_re tag =
     seqs [lit (''<'' @ tag), WordBoundary, Star not_lt,
           Star (seqs [NotAhead (lit (''</'' @ tag @ ''>'')), lit ''<'', Star not_lt]),
           lit (''</'' @ tag @ ''>'')]"

definition javascript_re :: "regex" where \<comment> \<open>\<open>javascript:\<close>\<close>
  "javascript_re = lit ''javascript:''"

definition handler_re :: "regex" where \<comment> \<open>\<open>on\w+\s*=\s*["'][^"']*["']\<close>\<close>
  "handler_re =
     seqs [lit ''on'', OneOrMore (Chars False [WordChars]), spaces, lit ''='', spaces,
           quote, Star not_quote, quote]"

definition link_re :: "regex" where \<comment> \<open>\<open><link\b[^>]*>\<close>\<close>
  "link_re = seqs [lit ''<link'', WordBoundary, Star (Chars True [ch CHR ''>'']), lit ''>'']"

text \<open>\<open>\shref\s*=\s*["'][^"']*(?:javascript:)[^"']*["']\<close>, and the same with \<open>xlink:href\<close>.\<close>

definition href_re :: "string \<Rightarrow> regex" where
  "href_re name =
     seqs [Chars False [SpaceChars], lit name, spaces, lit ''='', spaces,
           quote, Star not_quote, lit ''javascript:'', Star not_quote, quote]"

text \<open>
  The chains of \<open>.replace(...)\<close> calls, written as nested applications: the innermost
  application is the first call of the chain, and \<open>trim\<close> is the last.
\<close>

definition sanitizeHtml :: "js_string \<Rightarrow> js_string" where
  "sanitizeHtml input =
     trim
      (replace_all True (block_re ''style'') []
      (replace_all True link_re []
      (replace_all True (block_re ''embed'') []
      (replace_all True (block_re ''object'') []
      (replace_all True (block_re ''iframe'') []
      (replace_all True handler_re []
      (replace_all True javascript_re []
      (replace_all True (block_re ''script'') [] input))))))))"

definition sanitizeSvg :: "js_string \<Rightarrow> js_string" where
  "sanitizeSvg svgContent =
     trim
      (replace_all True (href_re ''xlink:href'') (str '' xlink:href='' @ [34] @ str ''#'' @ [34])
      (replace_all True (href_re ''href'') (str '' href='' @ [34] @ str ''#'' @ [34])
      (replace_all True (block_re ''foreignObject'') []
      (replace_all True handler_re []
      (replace_all True javascript_re []
      (replace_all True (block_re ''script'') [] svgContent))))))"

section \<open>The sanitizers with a record of where text was removed\<close>

text \<open>
  To say what a chain of replacements leaves behind, the same chain is run on a string whose
  characters carry a flag. A character is flagged when the text just before it was removed by
  a replacement, and every character that a replacement inserts is flagged; a flag stays in
  the later passes. \<open>replace_marked\<close> is \<open>replace_from\<close> on such strings: it looks for matches in
  the characters alone. The two chains below are the chains of \<open>sanitizeHtml\<close> and
  \<open>sanitizeSvg\<close>, and forgetting the flags of their results gives the results of the two
  sanitizers. The final \<open>trim\<close> removes white space at the two ends only and sets no flag.
\<close>

type_synonym marked = "(nat \<times> bool) list"

function replace_marked ::
  "bool \<Rightarrow> regex \<Rightarrow> js_string \<Rightarrow> nat list \<Rightarrow> marked \<Rightarrow> bool \<Rightarrow> marked" where
  "replace_marked ic r repl b a gap =
     (case ends ic r (b, map fst a) of
        [] \<Rightarrow>
          (case a of
             [] \<Rightarrow> []
           | (c, m) # cs \<Rightarrow> (c, m \<or> gap) # replace_marked ic r repl (c # b) cs False)
      | q # _ \<Rightarrow>
          if length (snd q) < length a
          then map (\<lambda>c. (c, True)) repl @
               replace_marked ic r repl (fst q) (drop (length a - length (snd q)) a) True
          else map (\<lambda>c. (c, True)) repl @
               (case a of
                  [] \<Rightarrow> []
                | (c, m) # cs \<Rightarrow> (c, True) # replace_marked ic r repl (c # b) cs False))"
  by pat_completeness auto
termination
  by (relation "measure (\<lambda>(ic, r, repl, b, a, gap). length a)") auto

declare replace_marked.simps [simp del]

definition unmarked :: "js_string \<Rightarrow> marked" where
  "unmarked s = map (\<lambda>c. (c, False)) s"

definition pass_marked :: "bool \<Rightarrow> regex \<Rightarrow> js_string \<Rightarrow> marked \<Rightarrow> marked" where
  "pass_marked ic r repl ms = replace_marked ic r repl [] ms False"

definition trim_marked :: "marked \<Rightarrow> marked" where
  "trim_marked ms =
     rev (dropWhile (\<lambda>x. is_space_char (fst x)) (rev (dropWhile (\<lambda>x. is_space_char (fst x)) ms)))"

definition sanitizeHtml_marked :: "js_string \<Rightarrow> marked" where
  "sanitizeHtml_marked input =
     trim_marked
      (pass_marked True (block_re ''style'') []
      (pass_marked True link_re []
      (pass_marked True (block_re ''embed'') []
      (pass_marked True (block_re ''object'') []
      (pass_marked True (block_re ''iframe'') []
      (pass_marked True handler_re []
      (pass_marked True javascript_re []
      (pass_marked True (block_re ''script'') [] (unmarked input)))))))))"

definition sanitizeSvg_marked :: "js_string \<Rightarrow> marked" where
  "sanitizeSvg_marked svgContent =
     trim_marked
      (pass_marked True (href_re ''xlink:href'') (str '' xlink:href='' @ [34] @ str ''#'' @ [34])
      (pass_marked True (href_re ''href'') (str '' href='' @ [34] @ str ''#'' @ [34])
      (pass_marked True (block_re ''foreignObject'') []
      (pass_marked True handler_re []
      (pass_marked True javascript_re []
      (pass_marked True (block_re ''script'') [] (unmarked svgContent)))))))"

text \<open>
  A run of characters is unbroken when no flag is set behind its first character: then
  nothing was removed or inserted between two of its characters.
\<close>

definition unbroken :: "marked \<Rightarrow> bool" where
  "unbroken w \<longleftrightarrow> list_all (\<lambda>x. \<not> snd x) (tl w)"

text \<open>The number of flagged characters.\<close>

definition flags :: "marked \<Rightarrow> nat" where
  "flags ms = length (filter snd ms)"

section \<open>JavaScript values\<close>

text \<open>
  The values a parsed JSON document is made of, together with \<open>undefined\<close> and the
  non-finite numbers. A finite number is modelled by the real number it denotes. An object
  is the list of its properties; a property is looked up by its first occurrence.
\<close>

datatype js_number = Finite real | NaN | PosInfinity | NegInfinity

datatype jsvalue =
    JUndefined
  | JNull
  | JBool bool
  | JNum js_number
  | JStr js_string
  | JArr "jsvalue list"
  | JObj "(js_string \<times> jsvalue) list"

text \<open>
  What a \<open>throw\<close> raises: the built-in errors with their message, and the error of a failed
  schema \<open>parse\<close>.
\<close>

datatype js_error = Error string | TypeError string | RangeError string | ZodError

section \<open>sanitizeText and sanitizeUrl\<close>

definition control_re :: "regex" where \<comment> \<open>\<open>[\x00-\x08\x0B\x0C\x0E-\x1F\x7F]\<close>\<close>
  "control_re = Chars False [CharRange 0 8, Single 11, Single 12, CharRange 14 31, Single 127]"

text \<open>
  \<open>s.slice(0, n)\<close> for an integer \<open>n\<close>: a negative \<open>n\<close> counts from the end of the string.
\<close>

definition slice0 :: "js_string \<Rightarrow> int \<Rightarrow> js_string" where
  "slice0 s n = (if n < 0 then take (nat (int (length s) + n)) s else take (nat n) s)"

definition sanitizeText :: "jsvalue \<Rightarrow> int \<Rightarrow> js_string" where
  "sanitizeText input maxLength =
     (case input of
        JStr s \<Rightarrow>
          (let cleaned = replace_all False control_re [] s;
               truncated = slice0 cleaned maxLength
           in sanitizeHtml truncated)
      | _ \<Rightarrow> [])"

definition blocked_scheme_re :: "regex" where \<comment> \<open>\<open>^(javascript|data|vbscript):\<close>\<close>
  "blocked_scheme_re =
     seqs [LineStart, alts [lit ''javascript'', lit ''data'', lit ''vbscript''], lit '':'']"

definition allowed_url_re :: "regex" where \<comment> \<open>\<open>^(https?:\/\/|mailto:|\/|\.\/|\.\.\/)\<close>\<close>
  "allowed_url_re =
     seqs [LineStart,
           alts [seqs [lit ''http'', Opt (lit ''s''), lit ''://''],
                 lit ''mailto:'', lit ''/'', lit ''./'', lit ''../'']]"

definition sanitizeUrl :: "jsvalue \<Rightarrow> js_string" where
  "sanitizeUrl url =
     (case url of
        JStr s \<Rightarrow>
          (let trimmed = trim s
           in if regex_test True blocked_scheme_re trimmed then []
              else if regex_test True allowed_url_re trimmed then trimmed
              else [])
      | _ \<Rightarrow> [])"

section \<open>Schemas\<close>

text \<open>
  The schema combinators of the zod package that the source uses, and what \<open>parse\<close> does
  with them. \<open>parse\<close> gives the parsed value, or fails when the input violates the schema. An
  object schema parses every declared key (an absent property reads as undefined); keys
  that are not declared go to the catch-all schema when there is one, and otherwise are
  dropped or, for a strict schema, make the parse fail. A declared key missing from the
  input is left out of the result unless its parsed value is defined.
\<close>

datatype string_check = MinLength nat | MaxLength nat

datatype number_check = IsFinite | MinValue real | MaxValue real

datatype unknown_keys = Strip | Strict

datatype schema =
    ZString "string_check list"
  | ZEnum "js_string list"
  | ZNumber "number_check list"
  | ZBoolean
  | ZAny
  | ZOptional schema
  | ZArray schema
  | ZRecord schema
  | ZObject "(js_string \<times> schema) list" unknown_keys "schema option"
  | ZTransform schema "jsvalue \<Rightarrow> jsvalue"
  | ZRefine schema "jsvalue \<Rightarrow> bool"

fun string_check_ok :: "js_string \<Rightarrow> string_check \<Rightarrow> bool" where
  "string_check_ok s (MinLength n) \<longleftrightarrow> n \<le> length s"
| "string_check_ok s (MaxLength n) \<longleftrightarrow> length s \<le> n"

fun number_check_ok :: "js_number \<Rightarrow> number_check \<Rightarrow> bool" where
  "number_check_ok (Finite r) IsFinite \<longleftrightarrow> True"
| "number_check_ok _ IsFinite \<longleftrightarrow> False"
| "number_check_ok (Finite r) (MinValue m) \<longleftrightarrow> m \<le> r"
| "number_check_ok PosInfinity (MinValue m) \<longleftrightarrow> True"
| "number_check_ok _ (MinValue m) \<longleftrightarrow> False"
| "number_check_ok (Finite r) (MaxValue m) \<longleftrightarrow> r \<le> m"
| "number_check_ok NegInfinity (MaxValue m) \<longleftrightarrow> True"
| "number_check_ok _ (MaxValue m) \<longleftrightarrow> False"

definition get_prop :: "(js_string \<times> jsvalue) list \<Rightarrow> js_string \<Rightarrow> jsvalue" where
  "get_prop ps k = (case map_of ps k of None \<Rightarrow> JUndefined | Some v \<Rightarrow> v)"

definition has_prop :: "(js_string \<times> jsvalue) list \<Rightarrow> js_string \<Rightarrow> bool" where
  "has_prop ps k \<longleftrightarrow> k \<in> fst ` set ps"

fun collect :: "(js_error + 'a) list \<Rightarrow> js_error + 'a list" where
  "collect [] = Inr []"
| "collect (Inl e # rs) = Inl e"
| "collect (Inr x # rs) = (case collect rs of Inl e \<Rightarrow> Inl e | Inr xs \<Rightarrow> Inr (x # xs))"

definition with_key :: "js_string \<Rightarrow> js_error + jsvalue \<Rightarrow> js_error + js_string \<times> jsvalue" where
  "with_key k r = (case r of Inl e \<Rightarrow> Inl e | Inr v \<Rightarrow> Inr (k, v))"

fun parse :: "schema \<Rightarrow> jsvalue \<Rightarrow> js_error + jsvalue" where
  "parse (ZString checks) v =
     (case v of
        JStr s \<Rightarrow> if list_all (string_check_ok s) checks then Inr v else Inl ZodError
      | _ \<Rightarrow> Inl ZodError)"
| "parse (ZEnum options) v =
     (case v of
        JStr s \<Rightarrow> if s \<in> set options then Inr v else Inl ZodError
      | _ \<Rightarrow> Inl ZodError)"
| "parse (ZNumber checks) v =
     (case v of
        JNum n \<Rightarrow> if n \<noteq> NaN \<and> list_all (number_check_ok n) checks then Inr v else Inl ZodError
      | _ \<Rightarrow> Inl ZodError)"
| "parse ZBoolean v = (case v of JBool b \<Rightarrow> Inr v | _ \<Rightarrow> Inl ZodError)"
| "parse ZAny v = Inr v"
| "parse (ZOptional s) v = (if v = JUndefined then Inr JUndefined else parse s v)"
| "parse (ZArray s) v =
     (case v of
        JArr xs \<Rightarrow> (case collect (map (parse s) xs) of Inl e \<Rightarrow> Inl e | Inr ys \<Rightarrow> Inr (JArr ys))
      | _ \<Rightarrow> Inl ZodError)"
| "parse (ZRecord s) v =
     (case v of
        JObj ps \<Rightarrow>
          (case collect (map (\<lambda>(k, x). with_key k (parse s x)) ps) of
             Inl e \<Rightarrow> Inl e
           | Inr qs \<Rightarrow> Inr (JObj qs))
      | _ \<Rightarrow> Inl ZodError)"
| "parse (ZObject shape unknown catchall) v =
     (case v of
        JObj ps \<Rightarrow>
          (let extra = filter (\<lambda>(k, x). k \<notin> fst ` set shape) ps;
               known = collect (map (\<lambda>(k, s). with_key k (parse s (get_prop ps k))) shape);
               others =
                 (case catchall of
                    None \<Rightarrow> (if unknown = Strict \<and> extra \<noteq> [] then Inl ZodError else Inr [])
                  | Some c \<Rightarrow> collect (map (\<lambda>(k, x). with_key k (parse c x)) extra))
           in case known of
                Inl e \<Rightarrow> Inl e
              | Inr qs \<Rightarrow>
                  (case others of
                     Inl e \<Rightarrow> Inl e
                   | Inr rs \<Rightarrow>
                       Inr (JObj (filter (\<lambda>(k, x). x \<noteq> JUndefined \<or> has_prop ps k) qs @ rs))))
      | _ \<Rightarrow> Inl ZodError)"
| "parse (ZTransform s f) v = (case parse s v of Inl e \<Rightarrow> Inl e | Inr x \<Rightarrow> Inr (f x))"
| "parse (ZRefine s check) v =
     (case parse s v of Inl e \<Rightarrow> Inl e | Inr x \<Rightarrow> if check x then Inr x else Inl ZodError)"


section \<open>The schemas of the drawing document\<close>

definition Math_PI :: real where \<comment> \<open>the double nearest to \<open>\<pi>\<close>\<close>
  "Math_PI = 884279719003555 / 281474976710656"

definition Number_0_1 :: real where \<comment> \<open>the double written \<open>0.1\<close>\<close>
  "Number_0_1 = 3602879701896397 / 36028797018963968"

definition fill_styles :: "js_string list" where
  "fill_styles = map str [''solid'', ''hachure'', ''cross-hatch'', ''dots'']"

definition stroke_styles :: "js_string list" where
  "stroke_styles = map str [''solid'', ''dashed'', ''dotted'']"

definition roundness_schema :: "schema" where
  "roundness_schema =
     ZObject [(str ''type'', ZEnum (map str [''round'', ''sharp''])),
              (str ''value'', ZNumber [IsFinite, MinValue 0, MaxValue 1])] Strip None"

definition elementSchema :: "schema" where
  "elementSchema =
     ZObject
      [(str ''id'', ZString [MinLength 1, MaxLength 100]),
       (str ''type'', ZEnum (map str [''rectangle'', ''ellipse'', ''diamond'', ''arrow'', ''line'',
          ''text'', ''image'', ''frame'', ''embed'', ''selection'', ''text-container''])),
       (str ''x'', ZNumber [IsFinite, MinValue (- 100000), MaxValue 100000]),
       (str ''y'', ZNumber [IsFinite, MinValue (- 100000), MaxValue 100000]),
       (str ''width'', ZNumber [IsFinite, MinValue 0, MaxValue 100000]),
       (str ''height'', ZNumber [IsFinite, MinValue 0, MaxValue 100000]),
       (str ''angle'', ZNumber [IsFinite, MinValue (- 2 * Math_PI), MaxValue (2 * Math_PI)]),
       (str ''strokeColor'', ZOptional (ZString [])),
       (str ''backgroundColor'', ZOptional (ZString [])),
       (str ''fillStyle'', ZOptional (ZEnum fill_styles)),
       (str ''strokeWidth'', ZOptional (ZNumber [IsFinite, MinValue 0, MaxValue 10])),
       (str ''strokeStyle'', ZOptional (ZEnum stroke_styles)),
       (str ''roundness'', ZOptional roundness_schema),
       (str ''boundElements'',
          ZOptional (ZArray (ZObject [(str ''id'', ZString []), (str ''type'', ZString [])] Strip None))),
       (str ''groupIds'', ZOptional (ZArray (ZString []))),
       (str ''frameId'', ZOptional (ZString [])),
       (str ''seed'', ZOptional (ZNumber [IsFinite])),
       (str ''version'', ZNumber [IsFinite, MinValue 0, MaxValue 100000]),
       (str ''versionNonce'', ZNumber [IsFinite, MinValue 0, MaxValue 100000]),
       (str ''isDeleted'', ZOptional ZBoolean),
       (str ''opacity'', ZOptional (ZNumber [IsFinite, MinValue 0, MaxValue 1])),
       (str ''link'', ZTransform (ZOptional (ZString [])) (\<lambda>val. JStr (sanitizeUrl val))),
       (str ''locked'', ZOptional ZBoolean),
       (str ''text'', ZTransform (ZOptional (ZString [])) (\<lambda>val. JStr (sanitizeText val 5000))),
       (str ''fontSize'', ZOptional (ZNumber [IsFinite, MinValue 1, MaxValue 200])),
       (str ''fontFamily'', ZOptional (ZNumber [IsFinite, MinValue 1, MaxValue 5])),
       (str ''textAlign'', ZOptional (ZEnum (map str [''left'', ''center'', ''right'']))),
       (str ''verticalAlign'', ZOptional (ZEnum (map str [''top'', ''middle'', ''bottom'']))),
       (str ''customData'', ZOptional (ZRecord ZAny))]
      Strict None"

text \<open>
  The check given to \<open>refine\<close> in the catch-all of the app state: for a string it returns the
  result of \<open>sanitizeText\<close>, a string, which counts as true exactly when it is not empty.
\<close>

definition catchall_check :: "jsvalue \<Rightarrow> bool" where
  "catchall_check val = (case val of JStr s \<Rightarrow> sanitizeText val 1000 \<noteq> [] | _ \<Rightarrow> True)"

definition appState_shape :: "(js_string \<times> schema) list" where
  "appState_shape =
      [(str ''gridSize'', ZOptional (ZNumber [IsFinite, MinValue 0, MaxValue 100])),
       (str ''gridStep'', ZOptional (ZNumber [IsFinite, MinValue 1, MaxValue 100])),
       (str ''viewBackgroundColor'', ZOptional (ZString [])),
       (str ''currentItemStrokeColor'', ZOptional (ZString [])),
       (str ''currentItemBackgroundColor'', ZOptional (ZString [])),
       (str ''currentItemFillStyle'', ZOptional (ZEnum fill_styles)),
       (str ''currentItemStrokeWidth'', ZOptional (ZNumber [IsFinite, MinValue 0, MaxValue 10])),
       (str ''currentItemStrokeStyle'', ZOptional (ZEnum stroke_styles)),
       (str ''currentItemRoundness'', ZOptional roundness_schema),
       (str ''currentItemFontSize'', ZOptional (ZNumber [IsFinite, MinValue 1, MaxValue 200])),
       (str ''currentItemFontFamily'', ZOptional (ZNumber [IsFinite, MinValue 1, MaxValue 5])),
       (str ''currentItemTextAlign'', ZOptional (ZEnum (map str [''left'', ''center'', ''right'']))),
       (str ''currentItemVerticalAlign'', ZOptional (ZEnum (map str [''top'', ''middle'', ''bottom'']))),
       (str ''scrollX'', ZOptional (ZNumber [IsFinite, MinValue (- 1000000), MaxValue 1000000])),
       (str ''scrollY'', ZOptional (ZNumber [IsFinite, MinValue (- 1000000), MaxValue 1000000])),
       (str ''zoom'',
          ZOptional (ZObject [(str ''value'', ZNumber [IsFinite, MinValue Number_0_1, MaxValue 10])]
                       Strip None)),
       (str ''selection'', ZOptional (ZArray (ZString []))),
       (str ''selectedElementIds'', ZOptional (ZRecord ZBoolean)),
       (str ''selectedGroupIds'', ZOptional (ZRecord ZBoolean)),
       (str ''activeEmbeddable'',
          ZOptional (ZObject [(str ''elementId'', ZString []), (str ''state'', ZString [])] Strip None)),
       (str ''activeTool'',
          ZOptional (ZObject [(str ''type'', ZString []),
                              (str ''customType'', ZOptional (ZString []))] Strip None)),
       (str ''cursorX'', ZOptional (ZNumber [IsFinite])),
       (str ''cursorY'', ZOptional (ZNumber [IsFinite]))]"

definition appStateSchema :: "schema" where
  "appStateSchema = ZObject appState_shape Strict (Some (ZRefine ZAny catchall_check))"

section \<open>sanitizeDrawingData and validateImportedDrawing\<close>

text \<open>
  \<open>data.name\<close> for a value that is neither null nor undefined: a property of an object, and
  undefined on an array or a primitive value for the four names read here.
\<close>

definition property :: "jsvalue \<Rightarrow> string \<Rightarrow> jsvalue" where
  "property data name = (case data of JObj ps \<Rightarrow> get_prop ps (str name) | _ \<Rightarrow> JUndefined)"

text \<open>
  \<open>JSON.parse(JSON.stringify(files, replacer))\<close>, where the replacer sends every string
  through \<open>sanitizeText\<close> with the bound 10000: a property whose value is undefined is
  dropped, an undefined array element and a non-finite number become null.
\<close>

fun sanitize_json :: "jsvalue \<Rightarrow> jsvalue" where
  "sanitize_json (JStr s) = JStr (sanitizeText (JStr s) 10000)"
| "sanitize_json (JNum n) = (case n of Finite r \<Rightarrow> JNum n | _ \<Rightarrow> JNull)"
| "sanitize_json (JArr xs) =
     JArr (map (\<lambda>x. case sanitize_json x of JUndefined \<Rightarrow> JNull | y \<Rightarrow> y) xs)"
| "sanitize_json (JObj ps) =
     JObj (filter (\<lambda>(k, y). y \<noteq> JUndefined) (map (\<lambda>(k, x). (k, sanitize_json x)) ps))"
| "sanitize_json v = v"

record sanitized_drawing =
  elements :: jsvalue
  appState :: jsvalue
  files :: jsvalue
  preview :: jsvalue

definition sanitizeDrawingData_try :: "jsvalue \<Rightarrow> js_error + sanitized_drawing" where
  "sanitizeDrawingData_try data =
     (if data = JUndefined \<or> data = JNull
      then Inl (TypeError ''Cannot read properties of undefined'')
      else
        case parse (ZArray elementSchema) (property data ''elements'') of
          Inl e \<Rightarrow> Inl e
        | Inr sanitizedElements \<Rightarrow>
            (case parse appStateSchema (property data ''appState'') of
               Inl e \<Rightarrow> Inl e
             | Inr sanitizedAppState \<Rightarrow>
                 (let sanitizedPreview =
                        (case property data ''preview'' of
                           JStr s \<Rightarrow> JStr (sanitizeSvg s)
                         | p \<Rightarrow> p);
                      sanitizedFiles =
                        (case property data ''files'' of
                           JObj ps \<Rightarrow> sanitize_json (JObj ps)
                         | JArr xs \<Rightarrow> sanitize_json (JArr xs)
                         | f \<Rightarrow> f)
                  in Inr \<lparr>elements = sanitizedElements, appState = sanitizedAppState,
                          files = sanitizedFiles, preview = sanitizedPreview\<rparr>)))"

text \<open>The \<open>catch\<close> of \<open>sanitizeDrawingData\<close> replaces every error by one of its own.\<close>

definition sanitizeDrawingData :: "jsvalue \<Rightarrow> js_error + sanitized_drawing" where
  "sanitizeDrawingData data =
     (case sanitizeDrawingData_try data of
        Inl e \<Rightarrow> Inl (Error ''Invalid or malicious drawing data detected'')
      | Inr r \<Rightarrow> Inr r)"

text \<open>\<open>!data || typeof data !== "object"\<close> is false for objects and arrays only.\<close>

definition is_object_or_array :: "jsvalue \<Rightarrow> bool" where
  "is_object_or_array v = (case v of JObj ps \<Rightarrow> True | JArr xs \<Rightarrow> True | _ \<Rightarrow> False)"

definition typeof_object :: "jsvalue \<Rightarrow> bool" where \<comment> \<open>\<open>typeof v === "object"\<close>\<close>
  "typeof_object v = (case v of JObj ps \<Rightarrow> True | JArr xs \<Rightarrow> True | JNull \<Rightarrow> True | _ \<Rightarrow> False)"

definition validateImportedDrawing_try :: "jsvalue \<Rightarrow> js_error + bool" where
  "validateImportedDrawing_try data =
     (if \<not> is_object_or_array data then Inr False
      else
        case property data ''elements'' of
          JArr xs \<Rightarrow>
            if \<not> typeof_object (property data ''appState'') then Inr False
            else if length xs > 10000
            then Inl (Error ''Drawing contains too many elements (max 10,000)'')
            else
              (case sanitizeDrawingData data of
                 Inl e \<Rightarrow> Inl e
               | Inr sanitized \<Rightarrow>
                   if (case elements sanitized of JArr ys \<Rightarrow> length ys \<noteq> length xs | _ \<Rightarrow> True)
                   then Inl (Error ''Element count mismatch after sanitization'')
                   else Inr True)
        | _ \<Rightarrow> Inr False)"

text \<open>The \<open>catch\<close> of \<open>validateImportedDrawing\<close> turns every error into \<open>false\<close>.\<close>

definition validateImportedDrawing :: "jsvalue \<Rightarrow> bool" where
  "validateImportedDrawing data =
     (case validateImportedDrawing_try data of Inl e \<Rightarrow> False | Inr b \<Rightarrow> b)"

text \<open>An element with the required fields only, and a document made of elements.\<close>

definition minimal_element :: "jsvalue" where
  "minimal_element =
     JObj [(str ''id'', JStr (str ''a'')), (str ''type'', JStr (str ''rectangle'')),
           (str ''x'', JNum (Finite 0)), (str ''y'', JNum (Finite 0)),
           (str ''width'', JNum (Finite 0)), (str ''height'', JNum (Finite 0)),
           (str ''angle'', JNum (Finite 0)), (str ''version'', JNum (Finite 0)),
           (str ''versionNonce'', JNum (Finite 0))]"

definition drawing :: "jsvalue list \<Rightarrow> (js_string \<times> jsvalue) list \<Rightarrow> jsvalue" where
  "drawing es app = JObj [(str ''elements'', JArr es), (str ''appState'', JObj app)]"

section \<open>Credential and session manager\<close>

definition SESSION_EXPIRY_MS :: int where
  "SESSION_EXPIRY_MS = 24 * 60 * 60 * 1000"

definition BCRYPT_ROUNDS :: nat where
  "BCRYPT_ROUNDS = 12"

definition LOGIN_RATE_LIMIT_WINDOW :: int where
  "LOGIN_RATE_LIMIT_WINDOW = 15 * 60 * 1000"

definition LOGIN_MAX_ATTEMPTS :: nat where
  "LOGIN_MAX_ATTEMPTS = 5"

record attempts =
  count :: nat
  resetTime :: int

record session =
  id' :: js_string  \<comment> \<open>the field \<open>id\<close>\<close>
  createdAt :: int
  expiresAt :: int

text \<open>
  The bcrypt package is not part of the repository: its two functions are parameters.
  Every call of them is recorded, in order, in the field \<open>calls\<close> of the state.
\<close>

record bcrypt =
  hash :: "js_string \<Rightarrow> nat \<Rightarrow> js_string"
  compare :: "js_string \<Rightarrow> js_string \<Rightarrow> bool"

datatype call = BcryptHash js_string nat | BcryptCompare js_string js_string

record env =
  ADMIN_USERNAME :: "js_string option"
  ADMIN_PASSWORD :: "js_string option"

record auth_state =
  hashedPassword :: "js_string option"
  sessions :: "js_string \<rightharpoonup> session"
  loginAttempts :: "js_string \<rightharpoonup> attempts"
  calls :: "call list"

text \<open>\<open>!x\<close> for a value that is a string or undefined: undefined and the empty string are falsy.\<close>

definition falsy :: "js_string option \<Rightarrow> bool" where
  "falsy x \<longleftrightarrow> (case x of None \<Rightarrow> True | Some s \<Rightarrow> s = [])"

definition initializeAuth :: "bcrypt \<Rightarrow> env \<Rightarrow> auth_state \<Rightarrow> js_error + auth_state" where
  "initializeAuth lib e st =
     (let adminPassword = ADMIN_PASSWORD e; adminUsername = ADMIN_USERNAME e
      in if falsy adminUsername \<or> length (trim (the adminUsername)) = 0
         then Inl (Error ''ADMIN_USERNAME environment variable is required'')
         else if falsy adminPassword \<or> length (the adminPassword) < 8
         then Inl (Error ''ADMIN_PASSWORD environment variable is required (minimum 8 characters)'')
         else Inr (st\<lparr>hashedPassword := Some (hash lib (the adminPassword) BCRYPT_ROUNDS),
                       calls := calls st @ [BcryptHash (the adminPassword) BCRYPT_ROUNDS]\<rparr>))"

text \<open>
  \<open>Buffer.alloc(n)\<close> is \<open>n\<close> zero bytes. \<open>buf.write(s)\<close> writes the UTF-8 encoding of \<open>s\<close> at the
  start of the buffer, as many whole characters as fit. \<open>utf8_chars\<close> gives the encoding
  character by character; a lone surrogate is encoded as U+FFFD.
\<close>

fun utf8_chars :: "js_string \<Rightarrow> nat list list" where
  "utf8_chars [] = []"
| "utf8_chars (c # cs) =
     (if c < 128 then [c] # utf8_chars cs
      else if c < 2048 then [192 + c div 64, 128 + c mod 64] # utf8_chars cs
      else if 55296 \<le> c \<and> c < 56320 then
        (case cs of
           [] \<Rightarrow> [[239, 191, 189]]
         | d # ds \<Rightarrow>
             if 56320 \<le> d \<and> d < 57344 then
               (let u = 65536 + (c - 55296) * 1024 + (d - 56320)
                in [240 + u div 262144, 128 + (u div 4096) mod 64,
                    128 + (u div 64) mod 64, 128 + u mod 64] # utf8_chars ds)
             else [239, 191, 189] # utf8_chars cs)
      else if 56320 \<le> c \<and> c < 57344 then [239, 191, 189] # utf8_chars cs
      else [224 + c div 4096, 128 + (c div 64) mod 64, 128 + c mod 64] # utf8_chars cs)"

fun fit :: "nat \<Rightarrow> nat list list \<Rightarrow> nat list" where
  "fit n [] = []"
| "fit n (bs # rest) = (if length bs \<le> n then bs @ fit (n - length bs) rest else [])"

definition buffer_alloc :: "nat \<Rightarrow> nat list" where
  "buffer_alloc n = replicate n 0"

definition buffer_write :: "nat list \<Rightarrow> js_string \<Rightarrow> nat list" where
  "buffer_write buf s = (let written = fit (length buf) (utf8_chars s) in written @ drop (length written) buf)"

text \<open>\<open>crypto.timingSafeEqual\<close> throws when the two buffers differ in length.\<close>

definition timingSafeEqual :: "nat list \<Rightarrow> nat list \<Rightarrow> js_error + bool" where
  "timingSafeEqual a b =
     (if length a \<noteq> length b
      then Inl (RangeError ''Input buffers must have the same byte length'')
      else Inr (a = b))"

definition verifyCredentials ::
  "bcrypt \<Rightarrow> env \<Rightarrow> auth_state \<Rightarrow> js_string \<Rightarrow> js_string \<Rightarrow> (js_error + bool) \<times> auth_state" where
  "verifyCredentials lib e st username password =
     (if falsy (hashedPassword st) then (Inl (Error ''Auth not initialized''), st)
      else
        (case ADMIN_USERNAME e of
           None \<Rightarrow> (Inl (TypeError ''Cannot read properties of undefined''), st)
         | Some adminUsername \<Rightarrow>
             (let maxLength = max (length username) (max (length adminUsername) 256);
                  userBuffer = buffer_write (buffer_alloc maxLength) username;
                  adminBuffer = buffer_write (buffer_alloc maxLength) adminUsername
              in case timingSafeEqual userBuffer adminBuffer of
                   Inl err \<Rightarrow> (Inl err, st)
                 | Inr equal \<Rightarrow>
                     (let usernameValid = (equal \<and> length username = length adminUsername);
                          passwordValid = compare lib password (the (hashedPassword st));
                          st' = st\<lparr>calls := calls st @ [BcryptCompare password (the (hashedPassword st))]\<rparr>
                      in (Inr (usernameValid \<and> passwordValid), st')))))"

text \<open>
  \<open>createSession\<close> reads the clock twice, for \<open>createdAt\<close> and for \<open>expiresAt\<close>: \<open>now1\<close> and
  \<open>now2\<close> are the two results of \<open>Date.now()\<close>, in that order, and \<open>token\<close> is the result of
  \<open>crypto.randomBytes(32).toString("hex")\<close>.
\<close>

definition createSession :: "js_string \<Rightarrow> int \<Rightarrow> int \<Rightarrow> auth_state \<Rightarrow> session \<times> auth_state" where
  "createSession token now1 now2 st =
     (let s = \<lparr>id' = token, createdAt = now1, expiresAt = now2 + SESSION_EXPIRY_MS\<rparr>
      in (s, st\<lparr>sessions := (sessions st)(id' s \<mapsto> s)\<rparr>))"

definition getSession :: "int \<Rightarrow> js_string \<Rightarrow> auth_state \<Rightarrow> session option \<times> auth_state" where
  "getSession now sessionId st =
     (case sessions st sessionId of
        None \<Rightarrow> (None, st)
      | Some s \<Rightarrow>
          if now > expiresAt s then (None, st\<lparr>sessions := (sessions st)(sessionId := None)\<rparr>)
          else (Some s, st))"

record request =
  ip :: "js_string option"
  remoteAddress :: "js_string option"

datatype response = Next | TooManyRequests int

definition client_address :: "request \<Rightarrow> js_string" where
  "client_address req =
     (if \<not> falsy (ip req) then the (ip req)
      else if \<not> falsy (remoteAddress req) then the (remoteAddress req)
      else str ''unknown'')"

definition loginRateLimit :: "int \<Rightarrow> request \<Rightarrow> auth_state \<Rightarrow> response \<times> auth_state" where
  "loginRateLimit now req st =
     (let addr = client_address req
      in case loginAttempts st addr of
           Some a \<Rightarrow>
             if now > resetTime a then
               (Next, st\<lparr>loginAttempts := (loginAttempts st)
                         (addr \<mapsto> \<lparr>count = 1, resetTime = now + LOGIN_RATE_LIMIT_WINDOW\<rparr>)\<rparr>)
             else if count a \<ge> LOGIN_MAX_ATTEMPTS then
               (TooManyRequests \<lceil>real_of_int (resetTime a - now) / 1000\<rceil>, st)
             else
               (Next, st\<lparr>loginAttempts := (loginAttempts st)(addr \<mapsto> a\<lparr>count := count a + 1\<rparr>)\<rparr>)
         | None \<Rightarrow>
             (Next, st\<lparr>loginAttempts := (loginAttempts st)
                       (addr \<mapsto> \<lparr>count = 1, resetTime = now + LOGIN_RATE_LIMIT_WINDOW\<rparr>)\<rparr>))"

text \<open>A sequence of login attempts of one client, each with the time at which it arrives.\<close>

fun attempts_at :: "int list \<Rightarrow> request \<Rightarrow> auth_state \<Rightarrow> response list \<times> auth_state" where
  "attempts_at [] req st = ([], st)"
| "attempts_at (now # later) req st =
     (let (r, st') = loginRateLimit now req st; (rs, st'') = attempts_at later req st'
      in (r # rs, st''))"

text \<open>A state in which nothing has happened yet, a client, and a stand-in for bcrypt.\<close>

definition initial_state :: "auth_state" where
  "initial_state = \<lparr>hashedPassword = None, sessions = Map.empty, loginAttempts = Map.empty, calls = []\<rparr>"

definition example_client :: "request" where
  "example_client = \<lparr>ip = Some (str ''10.0.0.1''), remoteAddress = None\<rparr>"

definition example_bcrypt :: "bcrypt" where
  "example_bcrypt = \<lparr>hash = (\<lambda>p rounds. 36 # p), compare = (\<lambda>p h. h = 36 # p)\<rparr>"

definition example_env :: "env" where
  "example_env = \<lparr>ADMIN_USERNAME = Some (str ''admin''), ADMIN_PASSWORD = Some (str ''password1'')\<rparr>"

text \<open>
  A configuration whose user name is 86 euro signs (U+20AC, three bytes each in UTF-8), and
  another name of the same length: 85 euro signs and one \<open>e\<close> with acute accent (U+00E9).
\<close>

definition long_admin_name :: "js_string" where
  "long_admin_name = replicate 85 8364 @ [8364]"

definition other_long_name :: "js_string" where
  "other_long_name = replicate 85 8364 @ [233]"

definition long_name_env :: "env" where
  "long_name_env = \<lparr>ADMIN_USERNAME = Some long_admin_name, ADMIN_PASSWORD = Some (str ''password1'')\<rparr>"

section \<open>Notions used in the statements\<close>

text \<open>One of the patterns of the first three passes matches somewhere in the string.\<close>

definition matches_a_pattern :: "js_string \<Rightarrow> bool" where
  "matches_a_pattern s \<longleftrightarrow>
     regex_test True (block_re ''script'') s \<or> regex_test True javascript_re s \<or>
     regex_test True handler_re s"

text \<open>The control characters \<open>sanitizeText\<close> is said to strip: 0 to 8, 11, 12, 14 to 31 and 127.\<close>

definition is_stripped_control :: "nat \<Rightarrow> bool" where
  "is_stripped_control c \<longleftrightarrow> c \<le> 8 \<or> c = 11 \<or> c = 12 \<or> (14 \<le> c \<and> c \<le> 31) \<or> c = 127"

text \<open>
  \<open>starts_with ic p s\<close>: the string \<open>s\<close> begins with the ASCII text \<open>p\<close>, up to letter case
  when \<open>ic\<close> is set.
\<close>

definition starts_with :: "bool \<Rightarrow> string \<Rightarrow> js_string \<Rightarrow> bool" where
  "starts_with ic p s \<longleftrightarrow>
     length p \<le> length s \<and>
     map (canonicalize ic) (take (length p) s) = map (canonicalize ic) (str p)"

definition has_blocked_scheme :: "js_string \<Rightarrow> bool" where
  "has_blocked_scheme t = list_ex (\<lambda>p. starts_with True p t) [''javascript:'', ''data:'', ''vbscript:'']"

definition has_allowed_prefix :: "js_string \<Rightarrow> bool" where
  "has_allowed_prefix t =
     list_ex (\<lambda>p. starts_with True p t) [''http://'', ''https://'', ''mailto:'', ''/'', ''./'', ''../'']"

text \<open>
  The three patterns the sanitizers are meant to remove, said without the matcher. In any
  letter case: a script block is \<open><script\<close>, then a character that is no letter, digit or
  underscore, then any text up to a closing \<open></script>\<close>; a \<open>javascript:\<close> URI is the text
  \<open>javascript:\<close>; an inline event handler is \<open>on\<close>, one or more letters, digits or
  underscores, optional white space, \<open>=\<close>, optional white space and a value that begins and
  ends with a quote (double or single).
\<close>

definition is_javascript_uri :: "js_string \<Rightarrow> bool" where
  "is_javascript_uri w \<longleftrightarrow> map (canonicalize True) w = map (canonicalize True) (str ''javascript:'')"

definition is_script_block :: "js_string \<Rightarrow> bool" where
  "is_script_block w \<longleftrightarrow>
     16 \<le> length w \<and> starts_with True ''<script'' w \<and> \<not> is_word_char (w ! 7) \<and>
     starts_with True ''</script>'' (drop (length w - 9) w)"

definition is_quote :: "nat \<Rightarrow> bool" where
  "is_quote c \<longleftrightarrow> c = 34 \<or> c = 39"

definition is_event_handler :: "js_string \<Rightarrow> bool" where
  "is_event_handler w \<longleftrightarrow>
     starts_with True ''on'' w \<and>
     takeWhile is_word_char (drop 2 w) \<noteq> [] \<and>
     (case dropWhile is_space_char (dropWhile is_word_char (drop 2 w)) of
        [] \<Rightarrow> False
      | c # r \<Rightarrow>
          c = 61 \<and>
          (case dropWhile is_space_char r of
             [] \<Rightarrow> False
           | q # v \<Rightarrow> is_quote q \<and> v \<noteq> [] \<and> is_quote (last v)))"

definition is_dangerous :: "js_string \<Rightarrow> bool" where
  "is_dangerous w \<longleftrightarrow> is_script_block w \<or> is_javascript_uri w \<or> is_event_handler w"

text \<open>The result for the declared keys of the app state.\<close>

definition declared_fields :: "(js_string \<times> jsvalue) list \<Rightarrow> js_error + (js_string \<times> jsvalue) list" where
  "declared_fields app =
     collect (map (\<lambda>(k, s). with_key k (parse s (get_prop app k))) appState_shape)"

text \<open>\<open>reach p q\<close>: position \<open>q\<close> lies in the same input as \<open>p\<close>, at or behind it.\<close>

definition reach :: "pos \<Rightarrow> pos \<Rightarrow> bool" where
  "reach p q \<longleftrightarrow> (\<exists>xs. fst q = rev xs @ fst p \<and> snd p = xs @ snd q)"

text \<open>A lower bound for the number of characters a match consumes.\<close>

fun min_len :: "regex \<Rightarrow> nat" where
  "min_len (Chars n i) = 1"
| "min_len (Cat r1 r2) = min_len r1 + min_len r2"
| "min_len (Alt r1 r2) = min (min_len r1) (min_len r2)"
| "min_len _ = 0"

text \<open>No run of characters that were adjacent in the input and still are is a \<open>P\<close>.\<close>

definition clean :: "(js_string \<Rightarrow> bool) \<Rightarrow> marked \<Rightarrow> bool" where
  "clean P ms \<longleftrightarrow> (\<forall>u w v. ms = u @ w @ v \<and> unbroken w \<longrightarrow> \<not> P (map fst w))"

text \<open>The pattern \<open>r\<close> matches wherever a \<open>P\<close> begins.\<close>

definition finds :: "regex \<Rightarrow> (js_string \<Rightarrow> bool) \<Rightarrow> bool" where
  "finds r P \<longleftrightarrow> (\<forall>b w rest. P w \<longrightarrow> ends True r (b, w @ rest) \<noteq> [])"

text \<open>A string of two or more characters that is no run of characters of \<open>s\<close>.\<close>

definition foreign :: "js_string \<Rightarrow> js_string \<Rightarrow> bool" where
  "foreign s w \<longleftrightarrow> 2 \<le> length w \<and> \<not> (\<exists>x y. s = x @ w @ y)"

text \<open>A closing \<open></script>\<close> tag begins somewhere in the string.\<close>

definition has_close :: "js_string \<Rightarrow> bool" where
  "has_close a \<longleftrightarrow> (\<exists>j. starts_with True ''</script>'' (drop j a))"

text \<open>Two parts of the script block pattern: the closing tag and the repeated group.\<close>

abbreviation (input) close_re :: regex where
  "close_re \<equiv> lit ''</script>''"

abbreviation (input) group_re :: regex where
  "group_re \<equiv> Cat (NotAhead close_re) (Cat (lit ''<'') (Cat (Star not_lt) Empty))"

text \<open>The definitions a concrete input is evaluated with.\<close>

lemmas eval_defs = sanitizeHtml_def sanitizeSvg_def replace_all_def regex_test_def block_re_def
  javascript_re_def handler_re_def link_re_def href_re_def control_re_def
  lit_def seqs_def alts_def OneOrMore_def Opt_def quote_def not_quote_def not_lt_def spaces_def
  ch_def str_def class_matches_def canonicalize_def trim_def word_before_def word_after_def
  is_word_char_def is_space_char_def replace_from.simps ends_Star

lemmas schema_defs = elementSchema_def appStateSchema_def appState_shape_def roundness_schema_def
  fill_styles_def stroke_styles_def Math_PI_def Number_0_1_def get_prop_def has_prop_def
  with_key_def property_def drawing_def minimal_element_def sanitizeDrawingData_def
  sanitizeDrawingData_try_def str_def

lemmas marked_defs = sanitizeHtml_marked_def sanitizeSvg_marked_def pass_marked_def
  trim_marked_def unmarked_def unbroken_def replace_marked.simps

section \<open>Properties of the matcher and of replacement\<close>

lemma reach_refl: "reach p p"
  by (simp add: reach_def)

lemma reach_trans: "reach p q \<Longrightarrow> reach q r \<Longrightarrow> reach p r"
  by (auto simp: reach_def)

lemma ends_reach: "q \<in> set (ends ic r p) \<Longrightarrow> reach p q"
proof (induction ic r p arbitrary: q rule: ends.induct)
  case (2 ic negated items b c a)
  then show ?case by (auto simp: reach_def split: if_splits)
next
  case (4 ic r1 r2 p)
  from "4.prems" obtain m where m: "m \<in> set (ends ic r1 p)" "q \<in> set (ends ic r2 m)"
    by auto
  from "4.IH"(1)[OF m(1)] "4.IH"(2)[OF m] show ?case
    by (rule reach_trans)
next
  case (6 ic r p)
  show ?case
  proof (cases "q = p")
    case True
    then show ?thesis by (simp add: reach_refl)
  next
    case False
    with "6.prems" obtain m where m: "m \<in> set (ends ic r p)" "length (snd m) < length (snd p)"
      "q \<in> set (ends ic (Star r) m)"
      by (subst (asm) ends_Star) auto
    from "6.IH"(1)[OF m(1)] "6.IH"(2)[of m q] m show ?thesis
      by (auto intro: reach_trans)
  qed
qed (auto simp: reach_def split: if_splits)

lemma ends_min_len: "q \<in> set (ends ic r p) \<Longrightarrow> length (snd q) + min_len r \<le> length (snd p)"
proof (induction ic r p arbitrary: q rule: ends.induct)
  case (4 ic r1 r2 p)
  from "4.prems" obtain m where m: "m \<in> set (ends ic r1 p)" "q \<in> set (ends ic r2 m)"
    by auto
  from "4.IH"(1)[OF m(1)] "4.IH"(2)[OF m] show ?case
    by simp
next
  case (6 ic r p)
  show ?case
  proof (cases "q = p")
    case True
    then show ?thesis by simp
  next
    case False
    with "6.prems" obtain m where m: "m \<in> set (ends ic r p)" "length (snd m) < length (snd p)"
      "q \<in> set (ends ic (Star r) m)"
      by (subst (asm) ends_Star) auto
    from "6.IH"(2)[of m q] m show ?thesis
      by simp
  qed
next
  case (5 ic r1 r2 p)
  from "5.prems" "5.IH"(1)[of q] "5.IH"(2)[of q] show ?case
    by (auto simp: min_def)
qed (auto split: if_splits)

lemma replace_from_length:
  "length repl \<le> min_len r \<Longrightarrow> length (replace_from ic r repl b a) \<le> length a"
proof (induction ic r repl b a rule: replace_from.induct)
  case (1 ic r repl b a)
  show ?case
  proof (cases "ends ic r (b, a)")
    case Nil
    with "1.IH"(1) "1.prems" show ?thesis
      by (subst replace_from.simps) (auto split: list.splits)
  next
    case (Cons q qs)
    then have q: "length (snd q) + min_len r \<le> length a"
      using ends_min_len[of q ic r "(b, a)"] by simp
    show ?thesis
    proof (cases "length (snd q) < length a")
      case True
      with Cons "1.IH"(2)[OF Cons True] "1.prems" q show ?thesis
        by (subst replace_from.simps) simp
    next
      case False
      with q "1.prems" have "length repl = 0" by arith
      then have "repl = []" by simp
      with Cons False "1.IH"(3)[OF Cons False] "1.prems" show ?thesis
        by (subst replace_from.simps) (auto split: list.splits)
    qed
  qed
qed

lemma replace_from_set:
  "set (replace_from ic r [] b a) \<subseteq> set a"
proof (induction ic r "[]::nat list" b a rule: replace_from.induct)
  case (1 ic r b a)
  have step: "set (case a of [] \<Rightarrow> [] | c # cs \<Rightarrow> c # replace_from ic r [] (c # b) cs) \<subseteq> set a"
    if "\<And>c cs. a = c # cs \<Longrightarrow> set (replace_from ic r [] (c # b) cs) \<subseteq> set cs"
    using that by (cases a) auto
  show ?case
  proof (cases "ends ic r (b, a)")
    case Nil
    with step "1.hyps"(1)[OF Nil] show ?thesis
      by (subst replace_from.simps) simp
  next
    case (Cons q qs)
    then have q: "reach (b, a) q"
      using ends_reach[of q ic r "(b, a)"] by simp
    then have sub: "set (snd q) \<subseteq> set a" by (auto simp: reach_def)
    show ?thesis
    proof (cases "length (snd q) < length a")
      case True
      with Cons "1.hyps"(2)[OF Cons True] sub show ?thesis
        by (subst replace_from.simps) auto
    next
      case False
      with Cons step "1.hyps"(3)[OF Cons False] show ?thesis
        by (subst replace_from.simps) simp
    qed
  qed
qed

lemma replace_from_shorter:
  "test_from ic r b a \<Longrightarrow> length repl < min_len r \<Longrightarrow>
   length (replace_from ic r repl b a) < length a"
proof (induction ic r repl b a rule: replace_from.induct)
  case (1 ic r repl b a)
  show ?case
  proof (cases "ends ic r (b, a)")
    case Nil
    with "1.prems"(1) obtain c cs where a: "a = c # cs" and t: "test_from ic r (c # b) cs"
      by (cases a) auto
    with Nil "1.IH"(1)[OF Nil a t "1.prems"(2)] show ?thesis
      by (subst replace_from.simps) simp
  next
    case (Cons q qs)
    then have q: "length (snd q) + min_len r \<le> length a"
      using ends_min_len[of q ic r "(b, a)"] by simp
    with "1.prems"(2) have lt: "length (snd q) < length a" by simp
    have "length (replace_from ic r repl (fst q) (snd q)) \<le> length (snd q)"
      using "1.prems"(2) by (intro replace_from_length) simp
    with Cons lt q "1.prems"(2) show ?thesis
      by (subst replace_from.simps) simp
  qed
qed

lemma replace_from_no_match:
  "\<not> test_from ic r b a \<Longrightarrow> replace_from ic r repl b a = a"
proof (induction a arbitrary: b)
  case Nil
  then show ?case by (subst replace_from.simps) simp
next
  case (Cons c a)
  then show ?case by (subst replace_from.simps) simp
qed


lemma min_len_lit: "min_len (lit cs) = length cs"
  by (induction cs) (simp_all add: lit_def)

lemma min_len_seqs: "min_len (seqs rs) = sum_list (map min_len rs)"
  by (induction rs) (simp_all add: seqs_def)

lemma min_len_block_re: "0 < min_len (block_re tag)"
  by (simp add: block_re_def min_len_seqs min_len_lit)

lemma min_len_javascript_re: "0 < min_len javascript_re"
  by (simp add: javascript_re_def min_len_lit)

lemma min_len_handler_re: "0 < min_len handler_re"
  by (simp add: handler_re_def min_len_seqs min_len_lit)

lemma min_len_link_re: "0 < min_len link_re"
  by (simp add: link_re_def min_len_seqs min_len_lit)

lemma min_len_href_re: "length name + 15 \<le> min_len (href_re name)"
  by (simp add: href_re_def min_len_seqs min_len_lit quote_def)

lemma length_trim: "length (trim s) \<le> length s"
proof -
  have "length (trim s) \<le> length (dropWhile is_space_char s)"
    unfolding trim_def by (simp add: length_dropWhile_le order_trans[OF length_dropWhile_le])
  also have "\<dots> \<le> length s" by (rule length_dropWhile_le)
  finally show ?thesis .
qed

lemma set_trim: "set (trim s) \<subseteq> set s"
proof -
  have "set (trim s) \<subseteq> set (dropWhile is_space_char s)"
    unfolding trim_def using set_dropWhileD by fastforce
  also have "\<dots> \<subseteq> set s" using set_dropWhileD by fastforce
  finally show ?thesis .
qed

lemma replace_all_length: "length repl \<le> min_len r \<Longrightarrow> length (replace_all ic r repl s) \<le> length s"
  by (simp add: replace_all_def replace_from_length)

lemma replace_all_shorter:
  "regex_test ic r s \<Longrightarrow> length repl < min_len r \<Longrightarrow> length (replace_all ic r repl s) < length s"
  by (simp add: replace_all_def regex_test_def replace_from_shorter)

lemma replace_all_no_match: "\<not> regex_test ic r s \<Longrightarrow> replace_all ic r repl s = s"
  by (simp add: replace_all_def regex_test_def replace_from_no_match)

lemma replace_all_set: "set (replace_all ic r [] s) \<subseteq> set s"
  by (simp add: replace_all_def replace_from_set)

lemma sanitizeHtml_length: "length (sanitizeHtml s) \<le> length s"
  unfolding sanitizeHtml_def
  by (intro order_trans[OF length_trim] order_trans[OF replace_all_length] order_refl) simp_all

lemma sanitizeHtml_set: "set (sanitizeHtml s) \<subseteq> set s"
  unfolding sanitizeHtml_def
  by (intro subset_trans[OF set_trim] subset_trans[OF replace_all_set] subset_refl)

lemma starts_with_Nil: "starts_with ic [] s"
  by (simp add: starts_with_def str_def)

lemma starts_with_Cons:
  "starts_with ic (c # cs) s \<longleftrightarrow>
     (case s of [] \<Rightarrow> False
      | x # xs \<Rightarrow> canonicalize ic (of_char c) = canonicalize ic x \<and> starts_with ic cs xs)"
  by (cases s) (auto simp: starts_with_def str_def)

lemma starts_with_append:
  "starts_with ic (p @ q) s \<longleftrightarrow> starts_with ic p s \<and> starts_with ic q (drop (length p) s)"
proof (induction p arbitrary: s)
  case Nil
  then show ?case by (simp add: starts_with_Nil)
next
  case (Cons c p)
  then show ?case by (cases s) (simp_all add: starts_with_Cons)
qed

lemma concat_map_concat_map:
  "concat (map f (concat (map g xs))) = concat (map (\<lambda>x. concat (map f (g x))) xs)"
  by (induction xs) simp_all

lemma ends_Cat_Cat: "ends ic (Cat (Cat r1 r2) r3) p = ends ic (Cat r1 (Cat r2 r3)) p"
proof -
  have "(\<lambda>x. concat (map (ends ic r3) (ends ic r2 x))) = ends ic (Cat r2 r3)"
    by (rule ext) simp
  then show ?thesis by (simp add: concat_map_concat_map)
qed

lemma ends_Cat_Alt: "ends ic (Cat (Alt r1 r2) r) p = ends ic (Cat r1 r) p @ ends ic (Cat r2 r) p"
  by simp

lemma ends_Empty: "ends ic Empty p = [p]"
  by simp

lemma ends_Cat_Empty: "ends ic (Cat Empty r) p = ends ic r p"
  by simp

lemma ends_Cat_Chars:
  "ends ic (Cat (Chars n items) r) (b, a) =
     (case a of [] \<Rightarrow> [] | x # xs \<Rightarrow> if class_matches ic n items x then ends ic r (x # b, xs) else [])"
  by (cases a) simp_all

lemma ends_Cat_lit:
  "ends ic (Cat (lit cs) r) (b, a) =
     (if starts_with ic cs a then ends ic r (rev (take (length cs) a) @ b, drop (length cs) a) else [])"
proof (induction cs arbitrary: b a)
  case Nil
  have "lit [] = Empty" by (simp add: lit_def)
  then show ?case by (simp add: starts_with_Nil)
next
  case (Cons c cs)
  have unfold: "lit (c # cs) = Cat (Chars False [ch c]) (lit cs)"
    by (simp add: lit_def)
  have "ends ic (Cat (lit (c # cs)) r) (b, a) =
        (case a of [] \<Rightarrow> []
         | x # xs \<Rightarrow> if class_matches ic False [ch c] x then ends ic (Cat (lit cs) r) (x # b, xs) else [])"
    unfolding unfold ends_Cat_Cat ends_Cat_Chars ..
  also have "\<dots> = (if starts_with ic (c # cs) a
       then ends ic r (rev (take (length (c # cs)) a) @ b, drop (length (c # cs)) a) else [])"
    unfolding Cons.IH
    by (cases a) (simp_all add: starts_with_Cons class_matches_def ch_def)
  finally show ?case .
qed

lemma test_from_LineStart: "b \<noteq> [] \<Longrightarrow> \<not> test_from ic (Cat LineStart r) b a"
  by (induction a arbitrary: b) simp_all

lemma regex_test_LineStart: "regex_test ic (Cat LineStart r) s \<longleftrightarrow> ends ic r ([], s) \<noteq> []"
  by (cases s) (simp_all add: regex_test_def test_from_LineStart)

subsection \<open>Patterns that match wherever their text begins\<close>

lemma mem_Cat:
  "q \<in> set (ends ic r1 p) \<Longrightarrow> q' \<in> set (ends ic r2 q) \<Longrightarrow> q' \<in> set (ends ic (Cat r1 r2) p)"
  by auto

lemma ne_Cat: "q \<in> set (ends ic r1 p) \<Longrightarrow> ends ic r2 q \<noteq> [] \<Longrightarrow> ends ic (Cat r1 r2) p \<noteq> []"
  by auto

lemma ends_Cat_Empty_right: "ends ic (Cat r Empty) p = ends ic r p"
proof -
  have "ends ic Empty = (\<lambda>q. [q])" by (rule ext) simp
  then show ?thesis by simp
qed

lemma star_class:
  "list_all (class_matches ic n items) xs \<Longrightarrow>
   (rev xs @ b, ys) \<in> set (ends ic (Star (Chars n items)) (b, xs @ ys))"
proof (induction xs arbitrary: b)
  case Nil
  then show ?case by (subst ends_Star) simp
next
  case (Cons x xs)
  then have "(rev xs @ x # b, ys) \<in> set (ends ic (Star (Chars n items)) (x # b, xs @ ys))"
    by simp
  with Cons.prems show ?case by (subst ends_Star) simp
qed

lemma starts_with_append_right: "starts_with ic p s \<Longrightarrow> starts_with ic p (s @ t)"
  by (simp add: starts_with_def)

lemma cm_word: "class_matches True False [WordChars] c = is_word_char c"
  by (simp add: class_matches_def)

lemma cm_space: "class_matches True False [SpaceChars] c = is_space_char c"
  by (simp add: class_matches_def)

lemma cm_quote: "class_matches True False [Single 34, Single 39] c = is_quote c"
  by (auto simp: class_matches_def canonicalize_def is_quote_def)

lemma cm_not_quote: "class_matches True True [Single 34, Single 39] c = (\<not> is_quote c)"
  by (auto simp: class_matches_def canonicalize_def is_quote_def)

lemma cm_not_lt: "class_matches True True [ch CHR ''<''] c = (c \<noteq> 60)"
  by (auto simp: class_matches_def canonicalize_def ch_def)

lemma javascript_uri_length: "is_javascript_uri w \<Longrightarrow> length w = 11"
proof -
  assume "is_javascript_uri w"
  then have "length (map (canonicalize True) w) = length (map (canonicalize True) (str ''javascript:''))"
    unfolding is_javascript_uri_def by simp
  then show ?thesis by (simp add: str_def)
qed

lemma finds_javascript: "finds javascript_re is_javascript_uri"
  unfolding finds_def
proof (intro allI impI)
  fix b w rest
  assume P: "is_javascript_uri w"
  from javascript_uri_length[OF P] P have "starts_with True ''javascript:'' (w @ rest)"
    by (simp add: starts_with_def is_javascript_uri_def)
  then have "ends True (Cat (lit ''javascript:'') Empty) (b, w @ rest) \<noteq> []"
    by (simp add: ends_Cat_lit del: ends.simps(4))
  then show "ends True javascript_re (b, w @ rest) \<noteq> []"
    unfolding javascript_re_def ends_Cat_Empty_right .
qed

lemma finds_handler: "finds handler_re is_event_handler"
  unfolding finds_def
proof (intro allI impI)
  fix b w rest
  assume P: "is_event_handler w"
  let ?W = "Chars False [WordChars]"
  let ?nq = "\<lambda>c. \<not> is_quote c"
  define d where "d = drop 2 w"
  define name where "name = takeWhile is_word_char d"
  define d1 where "d1 = dropWhile is_word_char d"
  define ws where "ws = takeWhile is_space_char d1"
  from P have on: "starts_with True ''on'' w" and name_ne: "name \<noteq> []"
    by (simp_all add: is_event_handler_def name_def d_def)
  from P obtain r where d2: "dropWhile is_space_char d1 = 61 # r"
    by (auto simp: is_event_handler_def d1_def d_def split: list.splits)
  define ws2 where "ws2 = takeWhile is_space_char r"
  from P d2 obtain q v where r2: "dropWhile is_space_char r = q # v" and q: "is_quote q"
    by (auto simp: is_event_handler_def d1_def d_def split: list.splits)
  define val where "val = takeWhile ?nq v"
  from P d2 r2 have "v \<noteq> []" and "is_quote (last v)"
    by (auto simp: is_event_handler_def d1_def d_def split: list.splits)
  then have "dropWhile ?nq v \<noteq> []"
    using dropWhile_eq_Nil_conv[of ?nq v] last_in_set[of v] by blast
  then obtain q2 tail where v2: "dropWhile ?nq v = q2 # tail"
    by (cases "dropWhile ?nq v") auto
  have q2: "is_quote q2"
    using hd_dropWhile[of ?nq v] v2 by simp
  define rest' where "rest' = tail @ rest"
  have w: "w = take 2 w @ name @ ws @ 61 # ws2 @ q # val @ q2 # tail"
  proof -
    have "w = take 2 w @ d" by (simp add: d_def)
    also have "d = name @ d1" by (simp add: name_def d1_def)
    also have "d1 = ws @ 61 # r" using d2 by (metis ws_def takeWhile_dropWhile_id)
    also have "r = ws2 @ q # v" using r2 by (metis ws2_def takeWhile_dropWhile_id)
    also have "v = val @ q2 # tail" using v2 by (metis val_def takeWhile_dropWhile_id)
    finally show ?thesis by simp
  qed
  from on have len2: "length (take 2 w) = 2" by (simp add: starts_with_def)
  obtain n1 ns where name: "name = n1 # ns" using name_ne by (cases name) auto
  have name_word: "list_all is_word_char name"
    unfolding name_def list_all_iff using set_takeWhileD by metis
  have ws_space: "list_all is_space_char ws"
    unfolding ws_def list_all_iff using set_takeWhileD by metis
  have ws2_space: "list_all is_space_char ws2"
    unfolding ws2_def list_all_iff using set_takeWhileD by metis
  have val_nq: "list_all ?nq val"
    unfolding val_def list_all_iff using set_takeWhileD by metis
  let ?b2 = "rev (take 2 w) @ b"
  let ?b3 = "rev ns @ n1 # ?b2"
  let ?b4 = "rev ws @ ?b3"
  let ?b5 = "61 # ?b4"
  let ?b6 = "rev ws2 @ ?b5"
  let ?b7 = "q # ?b6"
  let ?b8 = "rev val @ ?b7"
  let ?R7 = "Cat quote Empty"
  let ?R6 = "Cat (Star not_quote) ?R7"
  let ?R5 = "Cat quote ?R6"
  let ?R4 = "Cat spaces ?R5"
  let ?R3 = "Cat (lit ''='') ?R4"
  let ?R2 = "Cat spaces ?R3"
  let ?R1 = "Cat (OneOrMore ?W) ?R2"
  have 7: "ends True ?R7 (?b8, q2 # rest') \<noteq> []"
    using q2 by (simp add: quote_def ends_Cat_Chars cm_quote del: ends.simps(4))
  have 6: "ends True ?R6 (?b7, val @ q2 # rest') \<noteq> []"
    unfolding not_quote_def
  proof (rule ne_Cat[OF star_class])
    show "list_all (class_matches True True [Single 34, Single 39]) val"
      using val_nq by (simp add: cm_not_quote list_all_iff)
    show "ends True ?R7 (?b8, q2 # rest') \<noteq> []" by (rule 7)
  qed
  have 5: "ends True ?R5 (?b6, q # val @ q2 # rest') \<noteq> []"
    using q 6 by (simp add: quote_def ends_Cat_Chars cm_quote del: ends.simps(4))
  have 4: "ends True ?R4 (?b5, ws2 @ q # val @ q2 # rest') \<noteq> []"
    unfolding spaces_def
  proof (rule ne_Cat[OF star_class])
    show "list_all (class_matches True False [SpaceChars]) ws2"
      using ws2_space by (simp add: cm_space list_all_iff)
    show "ends True ?R5 (?b6, q # val @ q2 # rest') \<noteq> []" by (rule 5)
  qed
  have 3: "ends True ?R3 (?b4, 61 # ws2 @ q # val @ q2 # rest') \<noteq> []"
    using 4 by (simp add: ends_Cat_lit starts_with_Cons starts_with_Nil del: ends.simps(4))
  have 2: "ends True ?R2 (?b3, ws @ 61 # ws2 @ q # val @ q2 # rest') \<noteq> []"
    unfolding spaces_def
  proof (rule ne_Cat[OF star_class])
    show "list_all (class_matches True False [SpaceChars]) ws"
      using ws_space by (simp add: cm_space list_all_iff)
    show "ends True (Cat (lit ''='') (Cat (Star (Chars False [SpaceChars])) ?R5))
            (?b4, 61 # ws2 @ q # val @ q2 # rest') \<noteq> []"
      by (rule 3[unfolded spaces_def])
  qed
  have star: "ends True (Cat (Star ?W) ?R2) (n1 # ?b2, ns @ ws @ 61 # ws2 @ q # val @ q2 # rest') \<noteq> []"
  proof (rule ne_Cat[OF star_class])
    show "list_all (class_matches True False [WordChars]) ns"
      using name_word name by (simp add: cm_word list_all_iff)
    show "ends True ?R2 (?b3, ws @ 61 # ws2 @ q # val @ q2 # rest') \<noteq> []" by (rule 2)
  qed
  have 1: "ends True ?R1 (?b2, name @ ws @ 61 # ws2 @ q # val @ q2 # rest') \<noteq> []"
    unfolding OneOrMore_def ends_Cat_Cat name
    using star name_word name by (simp add: ends_Cat_Chars cm_word del: ends.simps(4))
  have sw: "starts_with True ''on'' (w @ rest)"
    by (rule starts_with_append_right[OF on])
  have split: "w @ rest = take 2 w @ (name @ ws @ 61 # ws2 @ q # val @ q2 # rest')"
    unfolding rest'_def by (subst w) simp
  have l2: "length ''on'' = 2" by simp
  have dr: "drop (length ''on'') (w @ rest) = name @ ws @ 61 # ws2 @ q # val @ q2 # rest'"
    and tk: "take (length ''on'') (w @ rest) = take 2 w"
    unfolding l2 using split len2 by (metis append_eq_conv_conj)+
  have "ends True (Cat (lit ''on'') ?R1) (b, w @ rest) =
        ends True ?R1 (?b2, name @ ws @ 61 # ws2 @ q # val @ q2 # rest')"
    by (simp only: ends_Cat_lit sw if_True dr tk)
  with 1 have "ends True (Cat (lit ''on'') ?R1) (b, w @ rest) \<noteq> []" by simp
  then show "ends True handler_re (b, w @ rest) \<noteq> []"
    by (simp add: handler_re_def seqs_def del: ends.simps(4))
qed

lemma close_starts_lt: "starts_with True ''</script>'' s \<Longrightarrow> s \<noteq> [] \<and> hd s = 60"
  by (cases s) (auto simp: starts_with_Cons canonicalize_def split: if_splits)

lemma has_close_skip:
  assumes "has_close (u @ a)" and "\<forall>c \<in> set u. c \<noteq> 60"
  shows "has_close a"
proof -
  from assms(1) obtain j where j: "starts_with True ''</script>'' (drop j (u @ a))"
    by (auto simp: has_close_def)
  show ?thesis
  proof (cases "j < length u")
    case True
    then have "drop j (u @ a) = u ! j # (drop (Suc j) u @ a)"
      by (simp add: Cons_nth_drop_Suc)
    with close_starts_lt[OF j] have "u ! j = 60" by simp
    with True assms(2) show ?thesis by (metis nth_mem)
  next
    case False
    then have "drop j (u @ a) = drop (j - length u) a" by simp
    with j show ?thesis by (auto simp: has_close_def)
  qed
qed

lemma has_close_Cons:
  assumes "has_close (c # a)" and "\<not> starts_with True ''</script>'' (c # a)"
  shows "has_close a"
proof -
  from assms(1) obtain j where j: "starts_with True ''</script>'' (drop j (c # a))"
    by (auto simp: has_close_def)
  with assms(2) have "j \<noteq> 0" by (cases j) auto
  then obtain k where "j = Suc k" by (cases j) auto
  with j show ?thesis by (auto simp: has_close_def)
qed

lemma has_close_ne: "has_close a \<Longrightarrow> a \<noteq> []"
  by (auto simp: has_close_def starts_with_def)

lemma ends_lit: "ends ic (lit cs) (b, a) =
     (if starts_with ic cs a then [(rev (take (length cs) a) @ b, drop (length cs) a)] else [])"
  using ends_Cat_lit[of ic cs Empty b a] unfolding ends_Cat_Empty_right by simp

lemma ends_Cat_NotAhead:
  "ends ic (Cat (NotAhead r1) r2) p = (if ends ic r1 p = [] then ends ic r2 p else [])"
  by simp

lemma ends_Cat_WordBoundary:
  "ends ic (Cat WordBoundary r) p = (if word_before p \<noteq> word_after p then ends ic r p else [])"
  by simp

lemma Star_step:
  assumes "q \<in> set (ends ic r p)" and "length (snd q) < length (snd p)"
    and "q' \<in> set (ends ic (Star r) q)"
  shows "q' \<in> set (ends ic (Star r) p)"
proof -
  have "q' \<in> set (concat (map (\<lambda>q. ends ic (Star r) q)
                 (filter (\<lambda>q. length (snd q) < length (snd p)) (ends ic r p))))"
    unfolding set_concat using assms by (intro UN_I[of "ends ic (Star r) q"]) auto
  then show ?thesis by (subst ends_Star) simp
qed

lemma Star_zero: "p \<in> set (ends ic (Star r) p)"
  by (subst ends_Star) simp

lemma run_not_lt:
  "(rev (takeWhile (\<lambda>c. c \<noteq> 60) a) @ b, dropWhile (\<lambda>c. c \<noteq> 60) a) \<in> set (ends True (Star not_lt) (b, a))"
proof -
  have "list_all (class_matches True True [ch CHR ''<'']) (takeWhile (\<lambda>c. c \<noteq> 60) a)"
    unfolding list_all_iff cm_not_lt using set_takeWhileD by metis
  from star_class[OF this, of b "dropWhile (\<lambda>c. c \<noteq> 60) a"] show ?thesis
    by (simp add: not_lt_def)
qed

lemma script_tail:
  "has_close a \<Longrightarrow> hd a = 60 \<Longrightarrow>
   ends True (Cat (Star group_re) (Cat close_re Empty)) (b, a) \<noteq> []"
proof (induction a arbitrary: b rule: length_induct)
  case (1 a)
  show ?case
  proof (cases "starts_with True ''</script>'' a")
    case True
    then have "ends True (Cat close_re Empty) (b, a) \<noteq> []"
      by (simp add: ends_Cat_lit del: ends.simps(4))
    from ne_Cat[OF Star_zero this] show ?thesis .
  next
    case False
    from has_close_ne[OF "1.prems"(1)] "1.prems"(2) obtain a1 where a: "a = 60 # a1"
      by (cases a) auto
    let ?u = "takeWhile (\<lambda>c. c \<noteq> 60) a1"
    let ?a2 = "dropWhile (\<lambda>c. c \<noteq> 60) a1"
    let ?q = "(rev ?u @ 60 # b, ?a2)"
    from has_close_Cons[OF "1.prems"(1)[unfolded a] False[unfolded a]] have "has_close (?u @ ?a2)"
      by simp
    then have hc: "has_close ?a2"
      by (rule has_close_skip) (metis set_takeWhileD)
    from has_close_ne[OF hc] have hd: "hd ?a2 = 60"
      using hd_dropWhile[of "\<lambda>c. c \<noteq> 60" a1] by simp
    have lt: "length ?a2 < length a"
      using a length_dropWhile_le[of "\<lambda>c. c \<noteq> 60" a1] by simp
    from "1.IH" lt hc hd have tail: "ends True (Cat (Star group_re) (Cat close_re Empty)) ?q \<noteq> []"
      by blast
    have "?q \<in> set (ends True (Cat (Star not_lt) Empty) (60 # b, a1))"
      unfolding ends_Cat_Empty_right by (rule run_not_lt)
    then have "?q \<in> set (ends True (Cat (lit ''<'') (Cat (Star not_lt) Empty)) (b, a))"
      unfolding a by (simp add: ends_Cat_lit starts_with_Cons starts_with_Nil del: ends.simps(4))
    moreover have "ends True close_re (b, a) = []"
      using False by (simp add: ends_lit)
    ultimately have g: "?q \<in> set (ends True group_re (b, a))"
      unfolding ends_Cat_NotAhead by simp
    from tail obtain q' where q': "q' \<in> set (ends True (Star group_re) ?q)"
      and c: "ends True (Cat close_re Empty) q' \<noteq> []"
      by auto
    from Star_step[OF g _ q'] lt have "q' \<in> set (ends True (Star group_re) (b, a))" by simp
    from ne_Cat[OF this c] show ?thesis .
  qed
qed

lemma script_body:
  assumes "has_close a"
  shows "ends True (Cat (Star not_lt) (Cat (Star group_re) (Cat close_re Empty))) (b, a) \<noteq> []"
proof -
  let ?u = "takeWhile (\<lambda>c. c \<noteq> 60) a"
  let ?a2 = "dropWhile (\<lambda>c. c \<noteq> 60) a"
  from assms have "has_close (?u @ ?a2)" by simp
  then have hc: "has_close ?a2"
    by (rule has_close_skip) (metis set_takeWhileD)
  from has_close_ne[OF hc] have hd: "hd ?a2 = 60"
    using hd_dropWhile[of "\<lambda>c. c \<noteq> 60" a] by simp
  from ne_Cat[OF run_not_lt script_tail[OF hc hd]] show ?thesis .
qed

lemma canon_upper_word: "canonicalize True c = 84 \<Longrightarrow> is_word_char c"
  by (auto simp: canonicalize_def is_word_char_def split: if_splits)

lemma finds_script: "finds (block_re ''script'') is_script_block"
  unfolding finds_def
proof (intro allI impI)
  fix b w rest
  assume P: "is_script_block w"
  then have len: "16 \<le> length w" and open_tag: "starts_with True ''<script'' w"
    and nw: "\<not> is_word_char (w ! 7)"
    and close_tag: "starts_with True ''</script>'' (drop (length w - 9) w)"
    by (simp_all add: is_script_block_def)
  define a where "a = drop 7 w @ rest"
  define b2 where "b2 = rev (take 7 w) @ b"
  have sw: "starts_with True ''<script'' (w @ rest)"
    by (rule starts_with_append_right[OF open_tag])
  have l7: "length ''<script'' = 7" by simp
  have dr: "drop (length ''<script'') (w @ rest) = a"
    and tk: "rev (take (length ''<script'') (w @ rest)) @ b = b2"
    unfolding l7 a_def b2_def using len by simp_all
  have "canonicalize True (w ! 6) = 84"
  proof -
    have "map (canonicalize True) (take 7 w) = map (canonicalize True) (str ''<script'')"
      using open_tag unfolding starts_with_def l7 by blast
    then have "map (canonicalize True) (take 7 w) ! 6 = map (canonicalize True) (str ''<script'') ! 6"
      by (rule arg_cong)
    moreover have "map (canonicalize True) (take 7 w) ! 6 = canonicalize True (w ! 6)"
      using len by simp
    moreover have "map (canonicalize True) (str ''<script'') ! 6 = 84"
      by (simp add: str_def canonicalize_def)
    ultimately show ?thesis by simp
  qed
  then have w6: "is_word_char (w ! 6)" by (rule canon_upper_word)
  have "b2 = w ! 6 # rev (take 6 w) @ b"
    unfolding b2_def using len by (simp add: take_Suc_conv_app_nth[of 6 w, simplified])
  with w6 have wb: "word_before (b2, a)" by (simp add: word_before_def)
  have "a = w ! 7 # drop 8 w @ rest"
    unfolding a_def using len Cons_nth_drop_Suc[of 7 w] by simp
  with nw have wa: "\<not> word_after (b2, a)" by (simp add: word_after_def)
  have "has_close a"
    unfolding has_close_def a_def
  proof
    from len close_tag show "starts_with True ''</script>'' (drop (length w - 16) (drop 7 w @ rest))"
      by (simp add: starts_with_append_right)
  qed
  from script_body[OF this]
  have body: "ends True (Cat (Star not_lt) (Cat (Star group_re) (Cat close_re Empty))) (b2, a) \<noteq> []" .
  have "ends True (Cat (lit ''<script'') (Cat WordBoundary (Cat (Star not_lt)
          (Cat (Star group_re) (Cat close_re Empty))))) (b, w @ rest) =
        ends True (Cat WordBoundary (Cat (Star not_lt)
          (Cat (Star group_re) (Cat close_re Empty)))) (b2, a)"
    by (simp only: ends_Cat_lit sw if_True dr tk)
  also have "\<dots> = ends True (Cat (Star not_lt) (Cat (Star group_re) (Cat close_re Empty))) (b2, a)"
    unfolding ends_Cat_WordBoundary using wb wa by simp
  finally show "ends True (block_re ''script'') (b, w @ rest) \<noteq> []"
    using body by (simp add: block_re_def seqs_def del: ends.simps(1-5,7-9))
qed

lemma script_block_length: "is_script_block w \<Longrightarrow> 2 \<le> length w"
  by (simp add: is_script_block_def)

lemma javascript_uri_length2: "is_javascript_uri w \<Longrightarrow> 2 \<le> length w"
  using javascript_uri_length[of w] by simp

lemma event_handler_length: "is_event_handler w \<Longrightarrow> 2 \<le> length w"
  by (simp add: is_event_handler_def starts_with_def str_def)

section \<open>Properties of the sanitizers\<close>

subsection \<open>Replacement with a record of where text was removed\<close>

lemma ends_suffix:
  assumes "q \<in> set (ends ic r (b, map fst a))"
  shows "map fst (drop (length a - length (snd q)) a) = snd q"
proof -
  from ends_reach[OF assms] obtain xs where xs: "map fst a = xs @ snd q"
    by (auto simp: reach_def)
  then have "length a = length xs + length (snd q)"
    by (metis length_append length_map)
  then have "drop (length a - length (snd q)) (map fst a) = snd q"
    using xs by simp
  then show ?thesis by (simp add: drop_map)
qed

lemma fst_replace_marked:
  "map fst (replace_marked ic r repl b a gap) = replace_from ic r repl b (map fst a)"
proof (induction ic r repl b a gap rule: replace_marked.induct)
  case (1 ic r repl b a gap)
  show ?case
  proof (cases "ends ic r (b, map fst a)")
    case Nil
    show ?thesis
    proof (cases a)
      case a_nil: Nil
      with Nil show ?thesis
        by (subst replace_marked.simps, subst replace_from.simps) simp
    next
      case a_cons: (Cons x cs)
      obtain c m where x: "x = (c, m)" by (cases x)
      from "1.IH"(1)[OF Nil a_cons[unfolded x] refl] Nil a_cons x show ?thesis
        by (subst replace_marked.simps, subst replace_from.simps) simp
    qed
  next
    case (Cons q qs)
    then have q: "q \<in> set (ends ic r (b, map fst a))" by simp
    note suf = ends_suffix[OF q]
    show ?thesis
    proof (cases "length (snd q) < length a")
      case True
      from "1.IH"(2)[OF Cons True] Cons True suf show ?thesis
        by (subst replace_marked.simps, subst replace_from.simps) (simp add: comp_def)
    next
      case False
      show ?thesis
      proof (cases a)
        case a_nil: Nil
        with Cons False show ?thesis
          by (subst replace_marked.simps, subst replace_from.simps) (simp add: comp_def)
      next
        case a_cons: (Cons x cs)
        obtain c m where x: "x = (c, m)" by (cases x)
        from "1.IH"(3)[OF Cons False a_cons[unfolded x] refl] Cons False a_cons x show ?thesis
          by (subst replace_marked.simps, subst replace_from.simps) (simp add: comp_def)
      qed
    qed
  qed
qed


lemma replace_marked_Nil:
  "replace_marked ic r repl b [] gap =
     (if ends ic r (b, []) = [] then [] else map (\<lambda>c. (c, True)) repl)"
  by (subst replace_marked.simps) (simp split: list.splits)

lemma replace_marked_no_match:
  "ends ic r (b, c # map fst cs) = [] \<Longrightarrow>
   replace_marked ic r repl b ((c, m) # cs) gap =
     (c, m \<or> gap) # replace_marked ic r repl (c # b) cs False"
  by (subst replace_marked.simps) simp

lemma replace_marked_match:
  assumes "ends ic r (b, map fst a) = q # qs" and "0 < min_len r"
  shows "length (snd q) < length a"
    and "replace_marked ic r repl b a gap =
       map (\<lambda>c. (c, True)) repl @
       replace_marked ic r repl (fst q) (drop (length a - length (snd q)) a) True"
proof -
  from assms(1) have "q \<in> set (ends ic r (b, map fst a))" by simp
  from ends_min_len[OF this] assms(2) show lt: "length (snd q) < length a" by simp
  with assms(1) show "replace_marked ic r repl b a gap =
       map (\<lambda>c. (c, True)) repl @
       replace_marked ic r repl (fst q) (drop (length a - length (snd q)) a) True"
    by (subst replace_marked.simps) simp
qed

lemma head_marked_append:
  assumes "o' = [] \<or> snd (hd o')"
  shows "map (\<lambda>c. (c, True)) repl @ o' = [] \<or> snd (hd (map (\<lambda>c. (c, True)) repl @ o'))"
  using assms by (cases repl) auto

lemma replace_marked_head:
  "0 < min_len r \<Longrightarrow> gap \<or> ends ic r (b, map fst a) \<noteq> [] \<Longrightarrow>
   replace_marked ic r repl b a gap = [] \<or> snd (hd (replace_marked ic r repl b a gap))"
proof (induction ic r repl b a gap rule: replace_marked.induct)
  case (1 ic r repl b a gap)
  note pos = "1.prems"(1)
  show ?case
  proof (cases "ends ic r (b, map fst a)")
    case Nil
    with "1.prems" have gap: gap by simp
    show ?thesis
    proof (cases a)
      case a_nil: Nil
      with Nil show ?thesis by (simp add: replace_marked_Nil)
    next
      case a_cons: (Cons x cs)
      obtain c m where x: "x = (c, m)" by (cases x)
      from Nil a_cons x gap show ?thesis
        by (simp add: replace_marked_no_match)
    qed
  next
    case (Cons q qs)
    note m = replace_marked_match[OF Cons pos]
    from "1.IH"(2)[OF Cons m(1) pos] have
      "replace_marked ic r repl (fst q) (drop (length a - length (snd q)) a) True = [] \<or>
       snd (hd (replace_marked ic r repl (fst q) (drop (length a - length (snd q)) a) True))"
      by simp
    from head_marked_append[OF this] show ?thesis
      unfolding m(2)[of repl gap] .
  qed
qed

lemma unmarked_prefix:
  "0 < min_len r \<Longrightarrow> replace_marked ic r repl b a gap = t @ v \<Longrightarrow>
   list_all (\<lambda>x. \<not> snd x) t \<Longrightarrow> \<exists>v'. a = t @ v'"
proof (induction ic r repl b a gap arbitrary: t v rule: replace_marked.induct)
  case (1 ic r repl b a gap)
  note pos = "1.prems"(1) and out_tv = "1.prems"(2) and t_un = "1.prems"(3)
  show ?case
  proof (cases "ends ic r (b, map fst a)")
    case Nil
    show ?thesis
    proof (cases a)
      case a_nil: Nil
      with Nil out_tv show ?thesis by (simp add: replace_marked_Nil)
    next
      case a_cons: (Cons x cs)
      obtain c m where x: "x = (c, m)" by (cases x)
      from Nil a_cons x have out: "replace_marked ic r repl b a gap =
          (c, m \<or> gap) # replace_marked ic r repl (c # b) cs False"
        by (simp add: replace_marked_no_match)
      show ?thesis
      proof (cases t)
        case t_nil: Nil
        then show ?thesis by simp
      next
        case t_cons: (Cons y t')
        with out_tv t_un out have y: "y = (c, m)"
          and rest: "replace_marked ic r repl (c # b) cs False = t' @ v"
          and t': "list_all (\<lambda>x. \<not> snd x) t'"
          by auto
        from "1.IH"(1)[OF Nil a_cons[unfolded x] refl pos rest t'] obtain v' where "cs = t' @ v'"
          by blast
        with a_cons x y t_cons show ?thesis by simp
      qed
    qed
  next
    case (Cons q qs)
    then have "ends ic r (b, map fst a) \<noteq> []" by simp
    with replace_marked_head[OF pos, where gap = gap and ic = ic and b = b and a = a and repl = repl]
    have "replace_marked ic r repl b a gap = [] \<or> snd (hd (replace_marked ic r repl b a gap))"
      by blast
    with out_tv t_un have "t = []" by (cases t) auto
    then show ?thesis by simp
  qed
qed

lemma clean_Nil: "(\<And>w. P w \<Longrightarrow> 2 \<le> length w) \<Longrightarrow> clean P []"
  by (fastforce simp: clean_def)

lemma clean_Cons:
  assumes "clean P o'"
    and short: "\<And>w. P w \<Longrightarrow> 2 \<le> length w"
    and new: "\<And>t v. o' = t @ v \<Longrightarrow> t \<noteq> [] \<Longrightarrow> list_all (\<lambda>x. \<not> snd x) t \<Longrightarrow> \<not> P (map fst (x # t))"
  shows "clean P (x # o')"
  unfolding clean_def
proof (intro allI impI)
  fix u w v
  assume h: "x # o' = u @ w @ v \<and> unbroken w"
  show "\<not> P (map fst w)"
  proof (cases u)
    case u_nil: Nil
    show ?thesis
    proof (cases w)
      case Nil
      with short[of "[]"] show ?thesis by auto
    next
      case (Cons y t)
      with h u_nil have y: "y = x" and o': "o' = t @ v" and t: "list_all (\<lambda>x. \<not> snd x) t"
        by (auto simp: unbroken_def)
      show ?thesis
      proof (cases "t = []")
        case True
        with Cons short[of "map fst w"] show ?thesis by auto
      next
        case False
        from new[OF o' False t] Cons y show ?thesis by simp
      qed
    qed
  next
    case (Cons y u')
    with h have "o' = u' @ w @ v" by simp
    with assms(1) h show ?thesis by (auto simp: clean_def)
  qed
qed

lemma clean_Cons_marked:
  assumes "clean P o'" and "\<And>w. P w \<Longrightarrow> 2 \<le> length w" and "o' = [] \<or> snd (hd o')"
  shows "clean P (x # o')"
proof (rule clean_Cons[OF assms(1,2)])
  fix t v
  assume "o' = t @ v" "t \<noteq> []" "list_all (\<lambda>x. \<not> snd x) t"
  with assms(3) show "\<not> P (map fst (x # t))" by (cases t) auto
qed

lemma clean_inserted:
  assumes "clean P o'" and "\<And>w. P w \<Longrightarrow> 2 \<le> length w" and "o' = [] \<or> snd (hd o')"
  shows "clean P (map (\<lambda>c. (c, True)) repl @ o')"
proof (induction repl)
  case Nil
  from assms(1) show ?case by simp
next
  case (Cons c repl)
  have "map (\<lambda>c. (c, True)) repl @ o' = [] \<or> snd (hd (map (\<lambda>c. (c, True)) repl @ o'))"
    by (rule head_marked_append[OF assms(3)])
  from clean_Cons_marked[OF Cons.IH assms(2) this] show ?case by simp
qed

lemma clean_suffix: "clean P (u0 @ ms) \<Longrightarrow> clean P ms"
  unfolding clean_def by (metis append.assoc)

lemma clean_prefix: "clean P (ms @ v0) \<Longrightarrow> clean P ms"
  unfolding clean_def by (metis append.assoc)

lemma clean_replace_marked:
  "0 < min_len r \<Longrightarrow> (\<And>w. P w \<Longrightarrow> 2 \<le> length w) \<Longrightarrow>
   (\<And>b' a' t v. S a' \<Longrightarrow> ends ic r (b', map fst a') = [] \<Longrightarrow> a' = t @ v \<Longrightarrow>
                unbroken t \<Longrightarrow> \<not> P (map fst t)) \<Longrightarrow>
   (\<And>u a'. S (u @ a') \<Longrightarrow> S a') \<Longrightarrow>
   S a \<Longrightarrow> clean P (replace_marked ic r repl b a gap)"
proof (induction ic r repl b a gap rule: replace_marked.induct)
  case (1 ic r repl b a gap)
  note pos = "1.prems"(1) and short = "1.prems"(2) and pre = "1.prems"(3) and suf = "1.prems"(4)
    and Sa = "1.prems"(5)
  show ?case
  proof (cases "ends ic r (b, map fst a)")
    case Nil
    show ?thesis
    proof (cases a)
      case a_nil: Nil
      with Nil clean_Nil[of P] short show ?thesis by (simp add: replace_marked_Nil)
    next
      case a_cons: (Cons x cs)
      obtain c m where x: "x = (c, m)" by (cases x)
      from Nil a_cons x have out: "replace_marked ic r repl b a gap =
          (c, m \<or> gap) # replace_marked ic r repl (c # b) cs False"
        by (simp add: replace_marked_no_match)
      from Sa a_cons suf[of "[x]" cs] have Scs: "S cs" by simp
      have IH: "clean P (replace_marked ic r repl (c # b) cs False)"
        by (rule "1.IH"(1)[OF Nil a_cons[unfolded x] refl pos short pre suf Scs])
      show ?thesis
        unfolding out
      proof (rule clean_Cons[OF IH short])
        fix t v
        assume tv: "replace_marked ic r repl (c # b) cs False = t @ v" and "t \<noteq> []"
          and un: "list_all (\<lambda>x. \<not> snd x) t"
        from unmarked_prefix[OF pos tv un] obtain v' where "cs = t @ v'" by blast
        with a_cons x have "a = ((c, m) # t) @ v'" by simp
        from pre[OF Sa Nil this] un have "\<not> P (map fst ((c, m) # t))"
          by (simp add: unbroken_def)
        then show "\<not> P (map fst ((c, m \<or> gap) # t))" by simp
      qed
    qed
  next
    case (Cons q qs)
    note m = replace_marked_match[OF Cons pos]
    let ?a' = "drop (length a - length (snd q)) a"
    from Sa suf[of "take (length a - length (snd q)) a" ?a'] have Sa': "S ?a'" by simp
    have IH: "clean P (replace_marked ic r repl (fst q) ?a' True)"
      by (rule "1.IH"(2)[OF Cons m(1) pos short pre suf Sa'])
    have hd: "replace_marked ic r repl (fst q) ?a' True = [] \<or>
              snd (hd (replace_marked ic r repl (fst q) ?a' True))"
      by (rule replace_marked_head[OF pos]) simp
    show ?thesis
      unfolding m(2)[of repl gap] by (rule clean_inserted[OF IH short hd])
  qed
qed

lemma clean_preserved:
  assumes "0 < min_len r" and "\<And>w. P w \<Longrightarrow> 2 \<le> length w" and "clean P ms"
  shows "clean P (pass_marked ic r repl ms)"
  unfolding pass_marked_def
proof (rule clean_replace_marked[where S = "clean P", OF assms(1,2) _ _ assms(3)])
  fix b' a' t v
  assume "clean P a'" "a' = t @ v" "unbroken t"
  then show "\<not> P (map fst t)"
    unfolding clean_def by (metis append_Nil)
next
  fix u a'
  assume "clean P (u @ a')"
  then show "clean P a'" by (rule clean_suffix)
qed

lemma clean_established:
  assumes "0 < min_len r" and "\<And>w. P w \<Longrightarrow> 2 \<le> length w" and "finds r P"
  shows "clean P (pass_marked True r repl ms)"
  unfolding pass_marked_def
proof (rule clean_replace_marked[where S = "\<lambda>a::marked. True", OF assms(1,2)])
  fix b' and a' t v :: marked
  assume no: "ends True r (b', map fst a') = []" and a': "a' = t @ v"
  show "\<not> P (map fst t)"
  proof
    assume "P (map fst t)"
    with assms(3) have "ends True r (b', map fst t @ map fst v) \<noteq> []"
      unfolding finds_def by blast
    with no a' show False by simp
  qed
qed simp_all

lemma fst_pass_marked: "map fst (pass_marked ic r repl ms) = replace_all ic r repl (map fst ms)"
  by (simp add: pass_marked_def replace_all_def fst_replace_marked)

lemma fst_trim_marked: "map fst (trim_marked ms) = trim (map fst ms)"
  by (simp add: trim_marked_def trim_def dropWhile_map rev_map comp_def)

lemma clean_trim_marked: "clean P ms \<Longrightarrow> clean P (trim_marked ms)"
proof -
  assume c: "clean P ms"
  let ?sp = "\<lambda>x. is_space_char (fst x)"
  have "ms = takeWhile ?sp ms @ dropWhile ?sp ms" by simp
  with c have 1: "clean P (dropWhile ?sp ms)" using clean_suffix by metis
  let ?d = "dropWhile ?sp ms"
  have "rev ?d = takeWhile ?sp (rev ?d) @ dropWhile ?sp (rev ?d)" by simp
  then have "?d = rev (dropWhile ?sp (rev ?d)) @ rev (takeWhile ?sp (rev ?d))"
    by (metis rev_append rev_rev_ident)
  with 1 have "clean P (rev (dropWhile ?sp (rev ?d)))" using clean_prefix by metis
  then show ?thesis by (simp add: trim_marked_def)
qed

lemma min_len_href_re_pos: "0 < min_len (href_re name)"
  using min_len_href_re[of name] by simp

lemma clean_unmarked: "(\<And>x w y. s = x @ w @ y \<Longrightarrow> \<not> P w) \<Longrightarrow> clean P (unmarked s)"
  unfolding clean_def unmarked_def
proof (intro allI impI)
  fix u w v
  assume r: "\<And>x w y. s = x @ w @ y \<Longrightarrow> \<not> P w"
    and "map (\<lambda>c. (c, False)) s = u @ w @ v \<and> unbroken w"
  then have "map fst (map (\<lambda>c. (c, False)) s) = map fst (u @ w @ v)" by simp
  then have "s = map fst u @ map fst w @ map fst v" by (simp add: comp_def)
  from r[OF this] show "\<not> P (map fst w)" .
qed

lemma clean_first_passes:
  assumes short: "\<And>w. P w \<Longrightarrow> 2 \<le> length w"
    and start: "clean P (pass_marked True (block_re ''script'') [] (unmarked s)) \<or>
                finds javascript_re P \<or> finds handler_re P"
  shows "clean P (pass_marked True handler_re []
                   (pass_marked True javascript_re []
                     (pass_marked True (block_re ''script'') [] (unmarked s))))"
proof -
  have pres: "clean P (pass_marked True r repl ms)" if "0 < min_len r" "clean P ms" for r repl ms
    using that(1) short that(2) by (rule clean_preserved)
  have est: "clean P (pass_marked True r repl ms)" if "0 < min_len r" "finds r P" for r repl ms
    using that(1) short that(2) by (rule clean_established)
  let ?m1 = "pass_marked True (block_re ''script'') [] (unmarked s)"
  let ?m2 = "pass_marked True javascript_re [] ?m1"
  from start show ?thesis
  proof (elim disjE)
    assume "clean P ?m1"
    then have "clean P ?m2" by (rule pres[OF min_len_javascript_re])
    then show ?thesis by (rule pres[OF min_len_handler_re])
  next
    assume "finds javascript_re P"
    then have "clean P ?m2" by (rule est[OF min_len_javascript_re])
    then show ?thesis by (rule pres[OF min_len_handler_re])
  next
    assume "finds handler_re P"
    then show ?thesis by (rule est[OF min_len_handler_re])
  qed
qed

lemma clean_sanitizeHtml_marked:
  assumes short: "\<And>w. P w \<Longrightarrow> 2 \<le> length w"
    and start: "clean P (pass_marked True (block_re ''script'') [] (unmarked s)) \<or>
                finds javascript_re P \<or> finds handler_re P"
  shows "clean P (sanitizeHtml_marked s)"
proof -
  have pres: "clean P (pass_marked True r repl ms)" if "0 < min_len r" "clean P ms" for r repl ms
    using that(1) short that(2) by (rule clean_preserved)
  note block = pres[OF min_len_block_re] and link = pres[OF min_len_link_re]
  from short start have "clean P (pass_marked True handler_re []
                   (pass_marked True javascript_re []
                     (pass_marked True (block_re ''script'') [] (unmarked s))))"
    by (rule clean_first_passes)
  then show ?thesis
    unfolding sanitizeHtml_marked_def
    by (intro clean_trim_marked block link)
qed

lemma clean_sanitizeSvg_marked:
  assumes short: "\<And>w. P w \<Longrightarrow> 2 \<le> length w"
    and start: "clean P (pass_marked True (block_re ''script'') [] (unmarked s)) \<or>
                finds javascript_re P \<or> finds handler_re P"
  shows "clean P (sanitizeSvg_marked s)"
proof -
  have pres: "clean P (pass_marked True r repl ms)" if "0 < min_len r" "clean P ms" for r repl ms
    using that(1) short that(2) by (rule clean_preserved)
  note block = pres[OF min_len_block_re] and href = pres[OF min_len_href_re_pos]
  from short start have "clean P (pass_marked True handler_re []
                   (pass_marked True javascript_re []
                     (pass_marked True (block_re ''script'') [] (unmarked s))))"
    by (rule clean_first_passes)
  then show ?thesis
    unfolding sanitizeSvg_marked_def
    by (intro clean_trim_marked block href)
qed

lemma dangerous_length: "is_dangerous w \<Longrightarrow> 2 \<le> length w"
  unfolding is_dangerous_def
  using script_block_length javascript_uri_length2 event_handler_length by blast

lemma script_first_pass:
  "clean is_script_block (pass_marked True (block_re ''script'') [] (unmarked s))"
  using min_len_block_re script_block_length finds_script by (rule clean_established)

lemma clean_dangerous:
  "clean is_dangerous (sanitizeHtml_marked s)" "clean is_dangerous (sanitizeSvg_marked s)"
proof -
  have s: "clean is_script_block (pass_marked True (block_re ''script'') [] (unmarked s)) \<or>
           finds javascript_re is_script_block \<or> finds handler_re is_script_block"
    by (simp add: script_first_pass)
  have j: "clean is_javascript_uri (pass_marked True (block_re ''script'') [] (unmarked s)) \<or>
           finds javascript_re is_javascript_uri \<or> finds handler_re is_javascript_uri"
    by (simp add: finds_javascript)
  have e: "clean is_event_handler (pass_marked True (block_re ''script'') [] (unmarked s)) \<or>
           finds javascript_re is_event_handler \<or> finds handler_re is_event_handler"
    by (simp add: finds_handler)
  from script_block_length s have hs: "clean is_script_block (sanitizeHtml_marked s)"
    by (rule clean_sanitizeHtml_marked)
  from javascript_uri_length2 j have hj: "clean is_javascript_uri (sanitizeHtml_marked s)"
    by (rule clean_sanitizeHtml_marked)
  from event_handler_length e have he: "clean is_event_handler (sanitizeHtml_marked s)"
    by (rule clean_sanitizeHtml_marked)
  from hs hj he show "clean is_dangerous (sanitizeHtml_marked s)"
    unfolding clean_def is_dangerous_def by blast
  from script_block_length s have ss: "clean is_script_block (sanitizeSvg_marked s)"
    by (rule clean_sanitizeSvg_marked)
  from javascript_uri_length2 j have sj: "clean is_javascript_uri (sanitizeSvg_marked s)"
    by (rule clean_sanitizeSvg_marked)
  from event_handler_length e have se: "clean is_event_handler (sanitizeSvg_marked s)"
    by (rule clean_sanitizeSvg_marked)
  from ss sj se show "clean is_dangerous (sanitizeSvg_marked s)"
    unfolding clean_def is_dangerous_def by blast
qed

lemma clean_foreign:
  "clean (foreign s) (sanitizeHtml_marked s)" "clean (foreign s) (sanitizeSvg_marked s)"
proof -
  have short: "\<And>w. foreign s w \<Longrightarrow> 2 \<le> length w" by (simp add: foreign_def)
  have "clean (foreign s) (unmarked s)"
    by (rule clean_unmarked) (auto simp: foreign_def)
  with min_len_block_re short
  have "clean (foreign s) (pass_marked True (block_re ''script'') [] (unmarked s))"
    by (rule clean_preserved)
  then have 1: "clean (foreign s) (pass_marked True (block_re ''script'') [] (unmarked s)) \<or>
           finds javascript_re (foreign s) \<or> finds handler_re (foreign s)"
    by simp
  from short 1 show "clean (foreign s) (sanitizeHtml_marked s)"
    by (rule clean_sanitizeHtml_marked)
  from short 1 show "clean (foreign s) (sanitizeSvg_marked s)"
    by (rule clean_sanitizeSvg_marked)
qed

lemma fst_sanitizeHtml_marked: "map fst (sanitizeHtml_marked s) = sanitizeHtml s"
  by (simp add: sanitizeHtml_marked_def sanitizeHtml_def fst_trim_marked fst_pass_marked
      unmarked_def comp_def)

lemma fst_sanitizeSvg_marked: "map fst (sanitizeSvg_marked s) = sanitizeSvg s"
  by (simp add: sanitizeSvg_marked_def sanitizeSvg_def fst_trim_marked fst_pass_marked
      unmarked_def comp_def)

lemma flags_Nil [simp]: "flags [] = 0"
  by (simp add: flags_def)

lemma flags_Cons: "flags (x # ms) = (if snd x then 1 else 0) + flags ms"
  by (simp add: flags_def)

lemma flags_append: "flags (xs @ ys) = flags xs + flags ys"
  by (simp add: flags_def)

lemma flags_inserted: "flags (map (\<lambda>c. (c, True)) repl) = length repl"
  by (induction repl) (simp_all add: flags_Cons)

lemma flags_unmarked: "flags (unmarked s) = 0"
  by (induction s) (simp_all add: unmarked_def flags_Cons)

lemma length_unmarked: "length (unmarked s) = length s"
  by (simp add: unmarked_def)

lemma flags_drop: "flags (drop n ms) \<le> flags ms"
proof -
  have "flags ms = flags (take n ms) + flags (drop n ms)"
    using flags_append[of "take n ms" "drop n ms"] by simp
  then show ?thesis by simp
qed

lemma flags_dropWhile: "flags (dropWhile P ms) \<le> flags ms"
proof -
  have "flags ms = flags (takeWhile P ms) + flags (dropWhile P ms)"
    using flags_append[of "takeWhile P ms" "dropWhile P ms"] by simp
  then show ?thesis by simp
qed

lemma flags_rev: "flags (rev ms) = flags ms"
  by (simp add: flags_def flip: rev_filter)

lemma flags_replace_marked:
  "(c + 1) * length repl + 1 \<le> c * min_len r \<Longrightarrow>
   flags (replace_marked ic r repl b a gap) + c * length (replace_marked ic r repl b a gap)
     \<le> flags a + c * length a + (if gap then 1 else 0)"
proof (induction ic r repl b a gap rule: replace_marked.induct)
  case (1 ic r repl b a gap)
  note w = "1.prems"
  from w have pos: "0 < min_len r" by (cases "min_len r") auto
  show ?case
  proof (cases "ends ic r (b, map fst a)")
    case Nil
    show ?thesis
    proof (cases a)
      case a_nil: Nil
      with Nil show ?thesis by (simp add: replace_marked_Nil)
    next
      case a_cons: (Cons x cs)
      obtain ch m where x: "x = (ch, m)" by (cases x)
      from Nil a_cons x have out: "replace_marked ic r repl b a gap =
          (ch, m \<or> gap) # replace_marked ic r repl (ch # b) cs False"
        by (simp add: replace_marked_no_match)
      have IH: "flags (replace_marked ic r repl (ch # b) cs False) +
                c * length (replace_marked ic r repl (ch # b) cs False) \<le> flags cs + c * length cs + 0"
        using "1.IH"(1)[OF Nil a_cons[unfolded x] refl w] by simp
      have l: "flags (replace_marked ic r repl b a gap) + c * length (replace_marked ic r repl b a gap) =
          (if m \<or> gap then 1 else 0) + c +
          (flags (replace_marked ic r repl (ch # b) cs False) +
           c * length (replace_marked ic r repl (ch # b) cs False))"
        by (simp add: out flags_Cons)
      have r: "flags a + c * length a = (if m then 1 else 0) + c + (flags cs + c * length cs)"
        by (simp add: a_cons x flags_Cons)
      show ?thesis
        unfolding l r using IH by auto
    qed
  next
    case (Cons q qs)
    note m = replace_marked_match[OF Cons pos]
    let ?a' = "drop (length a - length (snd q)) a"
    have IH: "flags (replace_marked ic r repl (fst q) ?a' True) +
              c * length (replace_marked ic r repl (fst q) ?a' True) \<le> flags ?a' + c * length ?a' + 1"
      using "1.IH"(2)[OF Cons m(1) w] by simp
    from Cons have "q \<in> set (ends ic r (b, map fst a))" by simp
    from ends_min_len[OF this] have k: "length (snd q) + min_len r \<le> length a" by simp
    then have len: "length ?a' = length (snd q)" by simp
    from k have "c * length (snd q) + c * min_len r \<le> c * length a"
      by (metis add_mult_distrib2 mult_le_mono2)
    with w have bound: "c * length (snd q) + (c + 1) * length repl + 1 \<le> c * length a" by linarith
    have "flags (replace_marked ic r repl b a gap) + c * length (replace_marked ic r repl b a gap) =
          (c + 1) * length repl + (flags (replace_marked ic r repl (fst q) ?a' True) +
              c * length (replace_marked ic r repl (fst q) ?a' True))"
      unfolding m(2)[of repl gap] by (simp add: flags_append flags_inserted algebra_simps)
    also have "\<dots> \<le> (c + 1) * length repl + (flags ?a' + c * length ?a' + 1)"
      using IH by simp
    also have "\<dots> \<le> flags a + c * length a"
      using bound flags_drop[of "length a - length (snd q)" a] unfolding len by linarith
    finally show ?thesis by simp
  qed
qed

lemma flags_pass_marked:
  assumes "(c + 1) * length repl + 1 \<le> c * min_len r"
  shows "flags (pass_marked ic r repl ms) + c * length (pass_marked ic r repl ms)
           \<le> flags ms + c * length ms"
  using flags_replace_marked[OF assms, of ic "[]" ms False] by (simp add: pass_marked_def)

lemma flags_trim_marked:
  "flags (trim_marked ms) + c * length (trim_marked ms) \<le> flags ms + c * length ms"
proof -
  let ?sp = "\<lambda>x. is_space_char (fst x)"
  have f: "flags (trim_marked ms) \<le> flags ms"
    unfolding trim_marked_def flags_rev
    by (rule order_trans[OF flags_dropWhile]) (simp add: flags_rev flags_dropWhile)
  have "length (trim_marked ms) \<le> length ms"
    unfolding trim_marked_def
    by (simp add: order_trans[OF length_dropWhile_le] length_dropWhile_le)
  then have "c * length (trim_marked ms) \<le> c * length ms" by simp
  with f show ?thesis by linarith
qed

lemma length_marked: "length (sanitizeHtml_marked s) = length (sanitizeHtml s)"
  "length (sanitizeSvg_marked s) = length (sanitizeSvg s)"
  using fst_sanitizeHtml_marked[of s] fst_sanitizeSvg_marked[of s] by (metis length_map)+

lemma flags_sanitizeHtml_marked:
  "flags (sanitizeHtml_marked s) + length (sanitizeHtml s) \<le> length s"
proof -
  have pass: "flags (pass_marked True r [] ms) + 1 * length (pass_marked True r [] ms)
                \<le> flags ms + 1 * length ms" if "0 < min_len r" for r ms
    by (rule flags_pass_marked) (use that in simp)
  note block = pass[OF min_len_block_re] and link = pass[OF min_len_link_re]
    and js = pass[OF min_len_javascript_re] and handler = pass[OF min_len_handler_re]
  have "flags (sanitizeHtml_marked s) + 1 * length (sanitizeHtml_marked s)
          \<le> flags (unmarked s) + 1 * length (unmarked s)"
    unfolding sanitizeHtml_marked_def
    by (intro order_trans[OF flags_trim_marked] order_trans[OF block] order_trans[OF link]
        order_trans[OF js] order_trans[OF handler] order_refl)
  then show ?thesis by (simp add: length_marked flags_unmarked length_unmarked)
qed

lemma flags_sanitizeSvg_marked:
  "flags (sanitizeSvg_marked s) + 2 * length (sanitizeSvg s) \<le> 2 * length s"
proof -
  have pass: "flags (pass_marked True r [] ms) + 2 * length (pass_marked True r [] ms)
                \<le> flags ms + 2 * length ms" if "0 < min_len r" for r ms
    by (rule flags_pass_marked) (use that in simp)
  note block = pass[OF min_len_block_re]
    and js = pass[OF min_len_javascript_re] and handler = pass[OF min_len_handler_re]
  have href: "flags (pass_marked True (href_re ''href'') (str '' href='' @ [34] @ str ''#'' @ [34]) ms) +
        2 * length (pass_marked True (href_re ''href'') (str '' href='' @ [34] @ str ''#'' @ [34]) ms)
                \<le> flags ms + 2 * length ms" for ms
    by (rule flags_pass_marked) (use min_len_href_re[of "''href''"] in \<open>simp add: str_def\<close>)
  have xlink: "flags (pass_marked True (href_re ''xlink:href'') (str '' xlink:href='' @ [34] @ str ''#'' @ [34]) ms) +
        2 * length (pass_marked True (href_re ''xlink:href'') (str '' xlink:href='' @ [34] @ str ''#'' @ [34]) ms)
                \<le> flags ms + 2 * length ms" for ms
    by (rule flags_pass_marked) (use min_len_href_re[of "''xlink:href''"] in \<open>simp add: str_def\<close>)
  have "flags (sanitizeSvg_marked s) + 2 * length (sanitizeSvg_marked s)
          \<le> flags (unmarked s) + 2 * length (unmarked s)"
    unfolding sanitizeSvg_marked_def
    by (intro order_trans[OF flags_trim_marked] order_trans[OF block] order_trans[OF xlink]
        order_trans[OF href] order_trans[OF js] order_trans[OF handler] order_refl)
  then show ?thesis by (simp add: length_marked flags_unmarked length_unmarked)
qed

text \<open>
  Claim C1, as amended. Run on any input, \<open>sanitizeHtml\<close> and \<open>sanitizeSvg\<close> leave no script
  block, no \<open>javascript:\<close> URI and no inline event handler that stood in the input: every
  occurrence of one of the three patterns in the output has been put together by the removal
  itself, from characters on both sides of a place where text was removed or inserted. In
  the flagged run of the two chains, whose characters are those of the output, there are no
  more flags than characters lost (twice as many for \<open>sanitizeSvg\<close>, which also inserts
  text), an unbroken run of characters is none of the three patterns, and an unbroken run of
  two or more characters is a run of characters of the input.
\<close>

theorem sanitizers_remove_every_occurrence:
  "map fst (sanitizeHtml_marked s) = sanitizeHtml s \<and>
   map fst (sanitizeSvg_marked s) = sanitizeSvg s \<and>
   flags (sanitizeHtml_marked s) + length (sanitizeHtml s) \<le> length s \<and>
   flags (sanitizeSvg_marked s) + 2 * length (sanitizeSvg s) \<le> 2 * length s \<and>
   (\<forall>u w v. (sanitizeHtml_marked s = u @ w @ v \<or> sanitizeSvg_marked s = u @ w @ v) \<and>
             unbroken w \<longrightarrow>
      \<not> is_script_block (map fst w) \<and> \<not> is_javascript_uri (map fst w) \<and>
      \<not> is_event_handler (map fst w) \<and>
      (2 \<le> length w \<longrightarrow> (\<exists>x y. s = x @ map fst w @ y)))"
proof (intro conjI allI impI)
  show "map fst (sanitizeHtml_marked s) = sanitizeHtml s" by (rule fst_sanitizeHtml_marked)
  show "map fst (sanitizeSvg_marked s) = sanitizeSvg s" by (rule fst_sanitizeSvg_marked)
  show "flags (sanitizeHtml_marked s) + length (sanitizeHtml s) \<le> length s"
    by (rule flags_sanitizeHtml_marked)
  show "flags (sanitizeSvg_marked s) + 2 * length (sanitizeSvg s) \<le> 2 * length s"
    by (rule flags_sanitizeSvg_marked)
next
  fix u w v
  assume a: "(sanitizeHtml_marked s = u @ w @ v \<or> sanitizeSvg_marked s = u @ w @ v) \<and> unbroken w"
  with clean_dangerous[of s] have d: "\<not> is_dangerous (map fst w)"
    unfolding clean_def by blast
  from d show "\<not> is_script_block (map fst w)" by (simp add: is_dangerous_def)
  from d show "\<not> is_javascript_uri (map fst w)" by (simp add: is_dangerous_def)
  from d show "\<not> is_event_handler (map fst w)" by (simp add: is_dangerous_def)
  assume "2 \<le> length w"
  moreover from a clean_foreign[of s] have "\<not> foreign s (map fst w)"
    unfolding clean_def by blast
  ultimately show "\<exists>x y. s = x @ map fst w @ y" by (simp add: foreign_def)
qed

text \<open>
  Claim C1 as stated fails: each pattern is removed in one pass from left to right, and
  removing a match can join the text around it into a new occurrence. The input
  \<open>javajavascript:script:\<close> contains \<open>javascript:\<close>, and both sanitizers return \<open>javascript:\<close>.
  Nor is every inline event handler a match of the pattern: one whose value is not quoted,
  as in \<open><img src=x onerror=alert(1)>\<close>, is returned as it is.
\<close>

theorem sanitizers_keep_nested_javascript:
  "str ''javajavascript:script:'' = str ''java'' @ str ''javascript:'' @ str ''script:'' \<and>
   is_javascript_uri (str ''javascript:'') \<and>
   sanitizeHtml (str ''javajavascript:script:'') = str ''javascript:'' \<and>
   sanitizeSvg (str ''javajavascript:script:'') = str ''javascript:'' \<and>
   sanitizeHtml (str ''<img src=x onerror=alert(1)>'') = str ''<img src=x onerror=alert(1)>'' \<and>
   sanitizeSvg (str ''<img src=x onerror=alert(1)>'') = str ''<img src=x onerror=alert(1)>''"
  by (simp add: is_javascript_uri_def eval_defs)

lemma marked_example:
  "sanitizeHtml_marked (str ''<script>a</script>cd<script>b</script>'') = [(99, True), (100, False)]"
  "sanitizeSvg_marked (str ''<script>a</script>cd<script>b</script>'') = [(99, True), (100, False)]"
  by (simp_all add: eval_defs marked_defs)

theorem sanitizers_remove_every_occurrence_witness:
  "sanitizeHtml (str ''<script>a</script>cd<script>b</script>'') = str ''cd'' \<and>
   sanitizeSvg (str ''<script>a</script>cd<script>b</script>'') = str ''cd'' \<and>
   unbroken [(99, True), (100, False)] \<and>
   \<not> is_script_block (str ''cd'') \<and> \<not> is_javascript_uri (str ''cd'') \<and>
   \<not> is_event_handler (str ''cd'') \<and>
   (\<exists>x y. str ''<script>a</script>cd<script>b</script>'' = x @ str ''cd'' @ y)"
proof -
  have u: "unbroken [(99, True), (100, False)]" by (simp add: unbroken_def)
  have c: "map fst [(99::nat, True), (100, False)] = str ''cd''" by (simp add: str_def)
  note t = sanitizers_remove_every_occurrence[of "str ''<script>a</script>cd<script>b</script>''"]
  from t[THEN conjunct1, unfolded marked_example c]
  have "sanitizeHtml (str ''<script>a</script>cd<script>b</script>'') = str ''cd''"
    by (rule sym)
  moreover from t[THEN conjunct2, THEN conjunct1, unfolded marked_example c]
  have "sanitizeSvg (str ''<script>a</script>cd<script>b</script>'') = str ''cd''"
    by (rule sym)
  moreover from t[THEN conjunct2, THEN conjunct2, THEN conjunct2, THEN conjunct2,
      THEN spec, of "[]", THEN spec,
      of "[(99, True), (100, False)]", THEN spec, of "[]"] u
  have "\<not> is_script_block (str ''cd'') \<and> \<not> is_javascript_uri (str ''cd'') \<and>
        \<not> is_event_handler (str ''cd'') \<and>
        (\<exists>x y. str ''<script>a</script>cd<script>b</script>'' = x @ str ''cd'' @ y)"
    unfolding marked_example c by simp
  ultimately show ?thesis using u by simp
qed

text \<open>
  The three patterns are those of the source and no wider: a script block whose closing tag
  has a space before \<open>>\<close> is returned as it is, while two script blocks in a row are both
  removed.
\<close>

lemma sanitizers_keep_other_spellings:
  "sanitizeHtml (str ''<script>x</script >'') = str ''<script>x</script >''"
  "sanitizeSvg (str ''<script>x</script >'') = str ''<script>x</script >''"
  by (simp_all add: eval_defs)

lemma sanitizers_remove_adjacent_blocks:
  "sanitizeHtml (str ''<script>a</script><script>b</script>'') = []"
  "sanitizeSvg (str ''<script>a</script><script>b</script>'') = []"
  by (simp_all add: eval_defs)

text \<open>
  An input that holds one of the three patterns comes back shorter, so a string that a
  sanitizer returns as it is holds none of them.
\<close>

lemma html_tail_length:
  "length (trim
      (replace_all True (block_re ''style'') []
      (replace_all True link_re []
      (replace_all True (block_re ''embed'') []
      (replace_all True (block_re ''object'') []
      (replace_all True (block_re ''iframe'') [] x)))))) \<le> length x"
  by (intro order_trans[OF length_trim] order_trans[OF replace_all_length] order_refl) simp_all

lemma svg_tail_length:
  "length (trim
      (replace_all True (href_re ''xlink:href'') (str '' xlink:href='' @ [34] @ str ''#'' @ [34])
      (replace_all True (href_re ''href'') (str '' href='' @ [34] @ str ''#'' @ [34])
      (replace_all True (block_re ''foreignObject'') [] x)))) \<le> length x"
proof -
  have a: "length (str '' xlink:href='' @ [34] @ str ''#'' @ [34]) \<le> min_len (href_re ''xlink:href'')"
    using min_len_href_re[of "''xlink:href''"] by (simp add: str_def)
  have b: "length (str '' href='' @ [34] @ str ''#'' @ [34]) \<le> min_len (href_re ''href'')"
    using min_len_href_re[of "''href''"] by (simp add: str_def)
  show ?thesis
    by (intro order_trans[OF length_trim] order_trans[OF replace_all_length[OF a]]
        order_trans[OF replace_all_length[OF b]] order_trans[OF replace_all_length] order_refl) simp
qed

lemma three_passes_shorter:
  assumes "matches_a_pattern s"
  shows "length (replace_all True handler_re []
          (replace_all True javascript_re []
          (replace_all True (block_re ''script'') [] s))) < length s"
proof -
  let ?f1 = "replace_all True (block_re ''script'') []"
  let ?f2 = "replace_all True javascript_re []"
  let ?f3 = "replace_all True handler_re []"
  have le1: "length (?f1 x) \<le> length x" for x by (rule replace_all_length) simp
  have le2: "length (?f2 x) \<le> length x" for x by (rule replace_all_length) simp
  have le3: "length (?f3 x) \<le> length x" for x by (rule replace_all_length) simp
  show ?thesis
  proof (cases "regex_test True (block_re ''script'') s")
    case True
    then have "length (?f1 s) < length s"
      by (rule replace_all_shorter) (simp add: min_len_block_re)
    with le2[of "?f1 s"] le3[of "?f2 (?f1 s)"] show ?thesis by linarith
  next
    case no1: False
    then have f1: "?f1 s = s" by (rule replace_all_no_match)
    show ?thesis
    proof (cases "regex_test True javascript_re s")
      case True
      then have "length (?f2 s) < length s"
        by (rule replace_all_shorter) (simp add: min_len_javascript_re)
      with f1 le3[of "?f2 s"] show ?thesis by simp
    next
      case no2: False
      then have f2: "?f2 s = s" by (rule replace_all_no_match)
      from assms no1 no2 have "regex_test True handler_re s"
        by (simp add: matches_a_pattern_def)
      then have "length (?f3 s) < length s"
        by (rule replace_all_shorter) (simp add: min_len_handler_re)
      with f1 f2 show ?thesis by simp
    qed
  qed
qed

lemma matched_input_gets_shorter:
  assumes "matches_a_pattern s"
  shows "length (sanitizeHtml s) < length s \<and> length (sanitizeSvg s) < length s"
proof
  show "length (sanitizeHtml s) < length s"
    unfolding sanitizeHtml_def
    by (rule le_less_trans[OF html_tail_length three_passes_shorter[OF assms]])
  show "length (sanitizeSvg s) < length s"
    unfolding sanitizeSvg_def
    by (rule le_less_trans[OF svg_tail_length three_passes_shorter[OF assms]])
qed

lemma test_from_here: "ends ic r (b, a) \<noteq> [] \<Longrightarrow> test_from ic r b a"
  by (cases a) simp_all

lemma test_from_append: "ends ic r (rev u @ b, a) \<noteq> [] \<Longrightarrow> test_from ic r b (u @ a)"
proof (induction u arbitrary: b)
  case Nil
  then show ?case by (simp add: test_from_here)
next
  case (Cons c u)
  from Cons.IH[of "c # b"] Cons.prems show ?case by simp
qed

lemma occurrence_matches:
  assumes "finds r P" and "P w"
  shows "regex_test True r (u @ w @ v)"
proof -
  from assms have "ends True r (rev u @ [], w @ v) \<noteq> []"
    unfolding finds_def by blast
  then show ?thesis
    unfolding regex_test_def by (rule test_from_append)
qed

lemma dangerous_matches: "is_dangerous w \<Longrightarrow> matches_a_pattern (u @ w @ v)"
  unfolding is_dangerous_def matches_a_pattern_def
  using occurrence_matches[OF finds_script] occurrence_matches[OF finds_javascript]
    occurrence_matches[OF finds_handler]
  by blast

lemma dangerous_input_gets_shorter:
  assumes "is_dangerous w"
  shows "length (sanitizeHtml (u @ w @ v)) < length (u @ w @ v)"
    and "length (sanitizeSvg (u @ w @ v)) < length (u @ w @ v)"
  using matched_input_gets_shorter[OF dangerous_matches[OF assms, of u v]] by blast+

text \<open>
  Claim C2 at a plain \<open>href\<close> with a \<open>javascript:\<close> target: the pass that deletes
  \<open>javascript:\<close> runs before the pass that rewrites such attributes, so the attribute keeps
  the rest of its value and is not rewritten to the fragment reference.
\<close>

theorem sanitizeSvg_href_not_rewritten:
  \<open>sanitizeSvg (str ''<a href="javascript:alert(1)">x</a>'') = str ''<a href="alert(1)">x</a>''\<close>
  by (simp add: eval_defs)

subsection \<open>sanitizeText\<close>

lemma replace_from_Chars:
  "replace_from ic (Chars neg items) [] b a = filter (\<lambda>c. \<not> class_matches ic neg items c) a"
proof (induction a arbitrary: b)
  case Nil
  then show ?case by (subst replace_from.simps) simp
next
  case (Cons c a)
  then show ?case by (subst replace_from.simps) simp
qed

lemma item_matches_CharRange: "item_matches False (CharRange lo hi) c \<longleftrightarrow> lo \<le> c \<and> c \<le> hi"
  by (auto simp: canonicalize_def list_ex_iff)

lemma control_class:
  "class_matches False False [CharRange 0 8, Single 11, Single 12, CharRange 14 31, Single 127] c = is_stripped_control c"
  unfolding class_matches_def is_stripped_control_def list_ex_Cons_iff list_ex_Nil_iff item_matches_CharRange
  by (auto simp: canonicalize_def)

lemma replace_control: "replace_all False control_re [] s = filter (\<lambda>c. \<not> is_stripped_control c) s"
  by (simp add: replace_all_def control_re_def replace_from_Chars control_class)

text \<open>
  Claim C8. For a string \<open>s\<close> and a bound \<open>B \<ge> 0\<close>, \<open>sanitizeText\<close> strips the control
  characters 0 to 8, 11, 12, 14 to 31 and 127, then truncates to \<open>B\<close> characters, then applies
  \<open>sanitizeHtml\<close>. The output is no longer than \<open>min (length s) B\<close>, and the only control
  characters it can contain are tab, line feed and carriage return. An input that is not a
  string gives the empty string.
\<close>

theorem sanitizeText_strips_truncates_sanitizes:
  assumes "0 \<le> B"
  shows "sanitizeText (JStr s) B =
           sanitizeHtml (take (nat B) (filter (\<lambda>c. \<not> is_stripped_control c) s)) \<and>
         int (length (sanitizeText (JStr s) B)) \<le> min (int (length s)) B \<and>
         (\<forall>c \<in> set (sanitizeText (JStr s) B). c < 32 \<or> c = 127 \<longrightarrow> c = 9 \<or> c = 10 \<or> c = 13) \<and>
         (case v of JStr _ \<Rightarrow> True | _ \<Rightarrow> sanitizeText v B = [])"
proof -
  let ?t = "take (nat B) (filter (\<lambda>c. \<not> is_stripped_control c) s)"
  have eq: "sanitizeText (JStr s) B = sanitizeHtml ?t"
    using assms by (simp add: sanitizeText_def slice0_def replace_control)
  have l0: "length (sanitizeHtml ?t) \<le> length ?t" by (rule sanitizeHtml_length)
  have "length ?t \<le> length (filter (\<lambda>c. \<not> is_stripped_control c) s)" by simp
  also have "\<dots> \<le> length s" by (rule length_filter_le)
  finally have "length ?t \<le> length s" .
  with l0 have l1: "length (sanitizeHtml ?t) \<le> length s" by (rule order_trans)
  have "length ?t \<le> nat B" by simp
  with l0 have l2: "length (sanitizeHtml ?t) \<le> nat B" by simp
  from l1 l2 assms have len: "int (length (sanitizeText (JStr s) B)) \<le> min (int (length s)) B"
    unfolding eq by linarith
  have "set (sanitizeHtml ?t) \<subseteq> set ?t" by (rule sanitizeHtml_set)
  also have "\<dots> \<subseteq> {c. \<not> is_stripped_control c}"
    using set_take_subset[of "nat B" "filter (\<lambda>c. \<not> is_stripped_control c) s"] by auto
  finally have ctl: "\<forall>c \<in> set (sanitizeText (JStr s) B). c < 32 \<or> c = 127 \<longrightarrow> c = 9 \<or> c = 10 \<or> c = 13"
    unfolding eq by (auto simp: is_stripped_control_def)
  have non: "(case v of JStr _ \<Rightarrow> True | _ \<Rightarrow> sanitizeText v B = [])"
    by (simp add: sanitizeText_def split: jsvalue.splits)
  from eq len ctl non show ?thesis by blast
qed

theorem sanitizeText_strips_truncates_sanitizes_witness:
  "(0::int) \<le> 3 \<and> sanitizeText (JStr [7, 65, 9, 66, 27, 67, 68]) 3 = [65, 9, 66] \<and>
   sanitizeText JNull 3 = []"
proof -
  have h: "(0::int) \<le> 3" by simp
  have "sanitizeHtml [65, 9, 66] = [65, 9, 66]"
    by (simp add: eval_defs)
  with sanitizeText_strips_truncates_sanitizes[OF h, of "[7, 65, 9, 66, 27, 67, 68]" JNull]
  show ?thesis by (simp add: is_stripped_control_def)
qed

subsection \<open>sanitizeUrl\<close>

lemma blocked_scheme_test: "regex_test True blocked_scheme_re t = has_blocked_scheme t"
proof -
  have j: "starts_with True ''javascript:'' t \<longleftrightarrow>
      starts_with True ''javascript'' t \<and> starts_with True '':'' (drop (length ''javascript'') t)"
    using starts_with_append[of True "''javascript''" "'':''" t] by simp
  have d: "starts_with True ''data:'' t \<longleftrightarrow>
      starts_with True ''data'' t \<and> starts_with True '':'' (drop (length ''data'') t)"
    using starts_with_append[of True "''data''" "'':''" t] by simp
  have v: "starts_with True ''vbscript:'' t \<longleftrightarrow>
      starts_with True ''vbscript'' t \<and> starts_with True '':'' (drop (length ''vbscript'') t)"
    using starts_with_append[of True "''vbscript''" "'':''" t] by simp
  have "regex_test True blocked_scheme_re t \<longleftrightarrow>
        (starts_with True ''javascript'' t \<and> starts_with True '':'' (drop (length ''javascript'') t)) \<or>
        (starts_with True ''data'' t \<and> starts_with True '':'' (drop (length ''data'') t)) \<or>
        (starts_with True ''vbscript'' t \<and> starts_with True '':'' (drop (length ''vbscript'') t))"
    unfolding blocked_scheme_re_def seqs_def alts_def regex_test_LineStart foldr.simps o_def
      butlast.simps last.simps id_def
    by (simp del: ends.simps(1-5,7-9) add: ends_Cat_Alt ends_Cat_lit ends_Empty)
  then show ?thesis
    unfolding has_blocked_scheme_def list_ex_Cons_iff list_ex_Nil_iff j d v by simp
qed

lemma allowed_url_test: "regex_test True allowed_url_re t = has_allowed_prefix t"
proof -
  have h: "starts_with True ''http://'' t \<longleftrightarrow>
      starts_with True ''http'' t \<and> starts_with True ''://'' (drop (length ''http'') t)"
    using starts_with_append[of True "''http''" "''://''" t] by simp
  have hs: "starts_with True ''https://'' t \<longleftrightarrow>
      starts_with True ''http'' t \<and> starts_with True ''s'' (drop (length ''http'') t) \<and>
      starts_with True ''://'' (drop (length ''s'') (drop (length ''http'') t))"
    using starts_with_append[of True "''http''" "''s://''" t]
      starts_with_append[of True "''s''" "''://''" "drop (length ''http'') t"] by simp
  show ?thesis
    unfolding allowed_url_re_def seqs_def alts_def Opt_def regex_test_LineStart foldr.simps o_def
      butlast.simps last.simps id_def has_allowed_prefix_def list_ex_Cons_iff list_ex_Nil_iff h hs
    by (simp del: ends.simps(1-5,7-9) drop_drop add: ends_Cat_Cat ends_Cat_Alt ends_Cat_lit ends_Empty ends_Cat_Empty)
qed

text \<open>
  Claim C7, as amended. \<open>sanitizeUrl\<close> trims its input; it returns the empty string when the
  trimmed value begins with \<open>javascript:\<close>, \<open>data:\<close> or \<open>vbscript:\<close> in any letter case; it
  returns the trimmed value when that begins with \<open>http://\<close>, \<open>https://\<close>, \<open>mailto:\<close> (in any
  letter case as well), \<open>/\<close>, \<open>./\<close> or \<open>../\<close>; it returns the empty string for every other
  string and for an input that is not a string. The five example values are returned
  unchanged.
\<close>

theorem sanitizeUrl_allow_list:
  "sanitizeUrl v =
     (case v of
        JStr u \<Rightarrow>
          if has_blocked_scheme (trim u) then []
          else if has_allowed_prefix (trim u) then trim u
          else []
      | _ \<Rightarrow> []) \<and>
   sanitizeUrl (JStr (str ''https://example.com'')) = str ''https://example.com'' \<and>
   sanitizeUrl (JStr (str ''/a/b'')) = str ''/a/b'' \<and>
   sanitizeUrl (JStr (str ''./a'')) = str ''./a'' \<and>
   sanitizeUrl (JStr (str ''../a'')) = str ''../a'' \<and>
   sanitizeUrl (JStr (str ''mailto:x@y.com'')) = str ''mailto:x@y.com''"
proof -
  have gen: "sanitizeUrl w =
     (case w of
        JStr u \<Rightarrow>
          if has_blocked_scheme (trim u) then []
          else if has_allowed_prefix (trim u) then trim u
          else []
      | _ \<Rightarrow> [])" for w
    by (simp add: sanitizeUrl_def blocked_scheme_test allowed_url_test split: jsvalue.splits)
  have ex: "sanitizeUrl (JStr (str ''https://example.com'')) = str ''https://example.com''"
    "sanitizeUrl (JStr (str ''/a/b'')) = str ''/a/b''"
    "sanitizeUrl (JStr (str ''./a'')) = str ''./a''"
    "sanitizeUrl (JStr (str ''../a'')) = str ''../a''"
    "sanitizeUrl (JStr (str ''mailto:x@y.com'')) = str ''mailto:x@y.com''"
    unfolding gen
    by (simp_all add: has_blocked_scheme_def has_allowed_prefix_def starts_with_def str_def
        trim_def is_space_char_def canonicalize_def)
  from gen[of v] ex show ?thesis by blast
qed

theorem sanitizeUrl_allow_list_witness:
  "sanitizeUrl (JStr (str '' JavaScript:alert(1)'')) = [] \<and>
   sanitizeUrl (JStr (str ''ftp://x'')) = [] \<and>
   sanitizeUrl (JBool True) = []"
  using sanitizeUrl_allow_list[of "JStr (str '' JavaScript:alert(1)'')"]
    sanitizeUrl_allow_list[of "JStr (str ''ftp://x'')"]
    sanitizeUrl_allow_list[of "JBool True"]
  by (simp add: has_blocked_scheme_def has_allowed_prefix_def starts_with_def str_def
        trim_def is_space_char_def canonicalize_def)

text \<open>
  Claim C7 as stated fails on a value that begins with none of the six accepted prefixes as
  they are written, but with one of them in upper case: the second pattern carries the
  \<open>i\<close> flag too, and the value is returned, not the empty string.
\<close>

theorem sanitizeUrl_accepts_upper_case_scheme:
  "\<not> starts_with False ''http://'' (str ''HTTP://A'') \<and>
   \<not> starts_with False ''https://'' (str ''HTTP://A'') \<and>
   \<not> starts_with False ''mailto:'' (str ''HTTP://A'') \<and>
   \<not> starts_with False ''/'' (str ''HTTP://A'') \<and>
   \<not> starts_with False ''./'' (str ''HTTP://A'') \<and>
   \<not> starts_with False ''../'' (str ''HTTP://A'') \<and>
   sanitizeUrl (JStr (str ''HTTP://A'')) = str ''HTTP://A'' \<and>
   str ''HTTP://A'' \<noteq> []"
  by (simp add: sanitizeUrl_def blocked_scheme_test allowed_url_test
        has_blocked_scheme_def has_allowed_prefix_def starts_with_def str_def
        trim_def is_space_char_def canonicalize_def)

section \<open>Properties of the credential and session manager\<close>

lemma length_fit: "length (fit n xs) \<le> n"
proof (induction xs arbitrary: n)
  case Nil
  then show ?case by simp
next
  case (Cons bs xs)
  from Cons.IH[of "n - length bs"] show ?case by auto
qed

lemma length_buffer_write: "length (buffer_write buf s) = length buf"
  using length_fit[of "length buf" "utf8_chars s"]
  by (simp add: buffer_write_def Let_def)

text \<open>
  Once a hash is stored, every call of \<open>verifyCredentials\<close> returns the conjunction of the
  user name check and of the bcrypt comparison, raises no error and calls the comparison
  exactly once, whatever the user name check gave. The user name check is the equality of
  the two buffers, each of \<open>max (username.length, adminUsername.length, 256)\<close> bytes, together
  with the equality of the two string lengths.
\<close>

lemma verifyCredentials_compares_once:
  assumes "ADMIN_USERNAME e = Some adminUsername"
    and "hashedPassword st = Some h" and "h \<noteq> []"
  shows "verifyCredentials lib e st username password =
     (let n = max (length username) (max (length adminUsername) 256)
      in (Inr ((buffer_write (buffer_alloc n) username = buffer_write (buffer_alloc n) adminUsername \<and>
                length username = length adminUsername) \<and>
               compare lib password h),
          st\<lparr>calls := calls st @ [BcryptCompare password h]\<rparr>))"
proof -
  let ?n = "max (length username) (max (length adminUsername) 256)"
  have len: "length (buffer_write (buffer_alloc ?n) username) = ?n"
    "length (buffer_write (buffer_alloc ?n) adminUsername) = ?n"
    by (simp_all add: length_buffer_write buffer_alloc_def)
  show ?thesis
    using assms len
    by (simp add: verifyCredentials_def falsy_def timingSafeEqual_def Let_def)
qed

lemma utf8_chars_euro: "utf8_chars (replicate n 8364 @ cs) = replicate n [226, 130, 172] @ utf8_chars cs"
  by (induction n) simp_all

lemma fit_euro:
  "3 * n \<le> k \<Longrightarrow>
   fit k (replicate n [226, 130, 172] @ rest) = concat (replicate n [226, 130, 172]) @ fit (k - 3 * n) rest"
proof (induction n arbitrary: k)
  case 0
  then show ?case by simp
next
  case (Suc n)
  from Suc.prems have "3 * n \<le> k - 3" by simp
  from Suc.IH[OF this] Suc.prems show ?case by (simp add: numeral_3_eq_3)
qed

lemma long_names_utf8:
  "utf8_chars long_admin_name = replicate 85 [226, 130, 172] @ [[226, 130, 172]]"
  "utf8_chars other_long_name = replicate 85 [226, 130, 172] @ [[195, 169]]"
  using utf8_chars_euro[of 85 "[8364]"] utf8_chars_euro[of 85 "[233]"]
  by (simp_all add: long_admin_name_def other_long_name_def)

lemma long_buffers:
  "buffer_write (buffer_alloc 256) long_admin_name = concat (replicate 85 [226, 130, 172]) @ [0]"
  "buffer_write (buffer_alloc 256) other_long_name = concat (replicate 85 [226, 130, 172]) @ [0]"
proof -
  have len: "length (concat (replicate 85 [226, 130, 172::nat])) = 255"
    by (simp add: length_concat sum_list_replicate)
  have fa: "fit 256 (utf8_chars long_admin_name) = concat (replicate 85 [226, 130, 172])"
    unfolding long_names_utf8 using fit_euro[of 85 256 "[[226, 130, 172]]"] by simp
  have fb: "fit 256 (utf8_chars other_long_name) = concat (replicate 85 [226, 130, 172])"
    unfolding long_names_utf8 using fit_euro[of 85 256 "[[195, 169]]"] by simp
  show "buffer_write (buffer_alloc 256) long_admin_name = concat (replicate 85 [226, 130, 172]) @ [0]"
    by (simp add: buffer_write_def buffer_alloc_def fa len)
  show "buffer_write (buffer_alloc 256) other_long_name = concat (replicate 85 [226, 130, 172]) @ [0]"
    by (simp add: buffer_write_def buffer_alloc_def fb len)
qed

text \<open>
  Claim C3 fails in its user name part: the check is not the byte-wise equality of the two
  padded user names. The common buffer length is computed from the string lengths (UTF-16
  code units), not from the byte lengths, so a name whose UTF-8 encoding is longer than the
  buffer is cut, and \<open>Buffer.write\<close> drops the character that does not fit. With a configured
  name of 86 euro signs (258 bytes) the buffers have 256 bytes; the name of 85 euro signs and
  one \<open>e\<close> with acute accent has the same string length and fills its buffer with the same 255
  bytes, and with the right password \<open>verifyCredentials\<close> returns true for it, after a
  successful \<open>initializeAuth\<close>.
\<close>

theorem verifyCredentials_accepts_other_username:
  "other_long_name \<noteq> long_admin_name \<and>
   length other_long_name = 86 \<and> length long_admin_name = 86 \<and>
   length (concat (utf8_chars other_long_name)) = 257 \<and>
   length (concat (utf8_chars long_admin_name)) = 258 \<and>
   buffer_write (buffer_alloc 256) other_long_name = concat (replicate 85 [226, 130, 172]) @ [0] \<and>
   buffer_write (buffer_alloc 256) long_admin_name = concat (replicate 85 [226, 130, 172]) @ [0] \<and>
   initializeAuth example_bcrypt long_name_env initial_state =
     Inr (initial_state\<lparr>hashedPassword := Some (36 # str ''password1''),
                         calls := [BcryptHash (str ''password1'') 12]\<rparr>) \<and>
   fst (verifyCredentials example_bcrypt long_name_env
          (initial_state\<lparr>hashedPassword := Some (36 # str ''password1''),
                          calls := [BcryptHash (str ''password1'') 12]\<rparr>)
          other_long_name (str ''password1'')) = Inr True"
proof -
  have ne: "other_long_name \<noteq> long_admin_name"
  proof
    assume "other_long_name = long_admin_name"
    then have "last other_long_name = last long_admin_name" by simp
    then show False by (simp add: other_long_name_def long_admin_name_def)
  qed
  have init: "initializeAuth example_bcrypt long_name_env initial_state =
     Inr (initial_state\<lparr>hashedPassword := Some (36 # str ''password1''),
                         calls := [BcryptHash (str ''password1'') 12]\<rparr>)"
    by (simp add: initializeAuth_def long_name_env_def example_bcrypt_def initial_state_def
        falsy_def BCRYPT_ROUNDS_def str_def trim_def is_space_char_def long_admin_name_def)
  have lens: "length other_long_name = 86" "length long_admin_name = 86"
    by (simp_all add: other_long_name_def long_admin_name_def)
  have "fst (verifyCredentials example_bcrypt long_name_env
          (initial_state\<lparr>hashedPassword := Some (36 # str ''password1''),
                          calls := [BcryptHash (str ''password1'') 12]\<rparr>)
          other_long_name (str ''password1'')) = Inr True"
    by (simp add: verifyCredentials_def long_name_env_def falsy_def initial_state_def lens
        long_buffers timingSafeEqual_def example_bcrypt_def Let_def del: replicate.simps)
  moreover have "length (concat (utf8_chars other_long_name)) = 257"
    and "length (concat (utf8_chars long_admin_name)) = 258"
    unfolding long_names_utf8 by (simp_all add: length_concat sum_list_replicate)
  ultimately show ?thesis using ne init lens long_buffers by simp
qed

text \<open>
  On short names the user name check does tell names apart: with the configured name
  \<open>admin\<close> and the right password, \<open>admin\<close> is accepted and \<open>admim\<close>, of the same length, is
  not; with a wrong password \<open>admin\<close> is not accepted either.
\<close>

lemma verifyCredentials_short_names:
  "fst (verifyCredentials example_bcrypt example_env
          (initial_state\<lparr>hashedPassword := Some (36 # str ''password1'')\<rparr>)
          (str ''admin'') (str ''password1'')) = Inr True"
  "fst (verifyCredentials example_bcrypt example_env
          (initial_state\<lparr>hashedPassword := Some (36 # str ''password1'')\<rparr>)
          (str ''admim'') (str ''password1'')) = Inr False"
  "fst (verifyCredentials example_bcrypt example_env
          (initial_state\<lparr>hashedPassword := Some (36 # str ''password1'')\<rparr>)
          (str ''admin'') (str ''password2'')) = Inr False"
proof -
  have l: "length (str ''admin'') = 5" "length (str ''admim'') = 5" by (simp_all add: str_def)
  have a: "buffer_write (buffer_alloc 256) (str ''admin'') = str ''admin'' @ replicate 251 0"
    by (simp add: buffer_write_def buffer_alloc_def str_def)
  have b: "buffer_write (buffer_alloc 256) (str ''admim'') = str ''admim'' @ replicate 251 0"
    by (simp add: buffer_write_def buffer_alloc_def str_def)
  have ne: "str ''admim'' \<noteq> str ''admin''" by (simp add: str_def)
  have e: "ADMIN_USERNAME example_env = Some (str ''admin'')" by (simp add: example_env_def)
  have h: "hashedPassword (initial_state\<lparr>hashedPassword := Some (36 # str ''password1'')\<rparr>) =
           Some (36 # str ''password1'')" "36 # str ''password1'' \<noteq> []"
    by simp_all
  note v = verifyCredentials_compares_once[OF e h]
  show "fst (verifyCredentials example_bcrypt example_env
          (initial_state\<lparr>hashedPassword := Some (36 # str ''password1'')\<rparr>)
          (str ''admin'') (str ''password1'')) = Inr True"
    unfolding v by (simp add: l a example_bcrypt_def)
  show "fst (verifyCredentials example_bcrypt example_env
          (initial_state\<lparr>hashedPassword := Some (36 # str ''password1'')\<rparr>)
          (str ''admim'') (str ''password1'')) = Inr False"
    unfolding v using ne by (simp add: l a b example_bcrypt_def)
  show "fst (verifyCredentials example_bcrypt example_env
          (initial_state\<lparr>hashedPassword := Some (36 # str ''password1'')\<rparr>)
          (str ''admin'') (str ''password2'')) = Inr False"
    unfolding v by (simp add: l a example_bcrypt_def str_def)
qed

lemma retry_after_sign:
  "0 \<le> \<lceil>real_of_int (r - now) / 1000\<rceil> \<longleftrightarrow> now - 1000 < r"
  "0 < \<lceil>real_of_int (r - now) / 1000\<rceil> \<longleftrightarrow> now < r"
  by simp_all linarith+

text \<open>
  Claim C4, as amended. The limiter is keyed by the client address, with a window of 15
  minutes and at most 5 attempts: without a counter the attempt creates one with count 1 and
  passes; with a counter whose reset time lies strictly before now it resets the counter to
  count 1 with a new window and passes; with a counter whose window is active and whose count
  is below 5 it increments the count and passes; with an active window and a count of 5 or
  more it is rejected, the counter is unchanged, and the retry-after value is the ceiling of
  the remaining milliseconds over 1000, which is never negative and is positive exactly when
  now lies strictly before the reset time. Hence five attempts in one window pass and the
  sixth is rejected; its retry-after is positive unless it arrives at the very millisecond
  of the reset time.
\<close>

theorem loginRateLimit_cases:
  "(loginAttempts st (client_address req) = None \<longrightarrow>
      loginRateLimit now req st =
        (Next, st\<lparr>loginAttempts := (loginAttempts st)
           (client_address req \<mapsto> \<lparr>count = 1, resetTime = now + 15 * 60 * 1000\<rparr>)\<rparr>)) \<and>
   (loginAttempts st (client_address req) = Some a \<and> resetTime a < now \<longrightarrow>
      loginRateLimit now req st =
        (Next, st\<lparr>loginAttempts := (loginAttempts st)
           (client_address req \<mapsto> \<lparr>count = 1, resetTime = now + 15 * 60 * 1000\<rparr>)\<rparr>)) \<and>
   (loginAttempts st (client_address req) = Some a \<and> now \<le> resetTime a \<and> count a < 5 \<longrightarrow>
      loginRateLimit now req st =
        (Next, st\<lparr>loginAttempts := (loginAttempts st)
           (client_address req \<mapsto> a\<lparr>count := count a + 1\<rparr>)\<rparr>)) \<and>
   (loginAttempts st (client_address req) = Some a \<and> now \<le> resetTime a \<and> 5 \<le> count a \<longrightarrow>
      loginRateLimit now req st =
        (TooManyRequests \<lceil>real_of_int (resetTime a - now) / 1000\<rceil>, st) \<and>
      0 \<le> \<lceil>real_of_int (resetTime a - now) / 1000\<rceil> \<and>
      (0 < \<lceil>real_of_int (resetTime a - now) / 1000\<rceil> \<longleftrightarrow> now < resetTime a)) \<and>
   (loginAttempts st (client_address req) = None \<and>
    (\<forall>t \<in> set [t2, t3, t4, t5, t6]. t \<le> t1 + 15 * 60 * 1000) \<longrightarrow>
      fst (attempts_at [t1, t2, t3, t4, t5, t6] req st) =
        [Next, Next, Next, Next, Next,
         TooManyRequests \<lceil>real_of_int (t1 + 15 * 60 * 1000 - t6) / 1000\<rceil>] \<and>
      loginAttempts (snd (attempts_at [t1, t2, t3, t4, t5, t6] req st)) (client_address req) =
        Some \<lparr>count = 5, resetTime = t1 + 15 * 60 * 1000\<rparr> \<and>
      (0 < \<lceil>real_of_int (t1 + 15 * 60 * 1000 - t6) / 1000\<rceil> \<longleftrightarrow> t6 < t1 + 15 * 60 * 1000))"
proof (intro conjI impI)
  assume "loginAttempts st (client_address req) = None"
  then show "loginRateLimit now req st =
        (Next, st\<lparr>loginAttempts := (loginAttempts st)
           (client_address req \<mapsto> \<lparr>count = 1, resetTime = now + 15 * 60 * 1000\<rparr>)\<rparr>)"
    by (simp add: loginRateLimit_def LOGIN_RATE_LIMIT_WINDOW_def)
next
  assume "loginAttempts st (client_address req) = Some a \<and> resetTime a < now"
  then show "loginRateLimit now req st =
        (Next, st\<lparr>loginAttempts := (loginAttempts st)
           (client_address req \<mapsto> \<lparr>count = 1, resetTime = now + 15 * 60 * 1000\<rparr>)\<rparr>)"
    by (simp add: loginRateLimit_def LOGIN_RATE_LIMIT_WINDOW_def)
next
  assume "loginAttempts st (client_address req) = Some a \<and> now \<le> resetTime a \<and> count a < 5"
  then show "loginRateLimit now req st =
        (Next, st\<lparr>loginAttempts := (loginAttempts st)
           (client_address req \<mapsto> a\<lparr>count := count a + 1\<rparr>)\<rparr>)"
    by (simp add: loginRateLimit_def LOGIN_MAX_ATTEMPTS_def)
next
  assume h: "loginAttempts st (client_address req) = Some a \<and> now \<le> resetTime a \<and> 5 \<le> count a"
  then show "loginRateLimit now req st =
        (TooManyRequests \<lceil>real_of_int (resetTime a - now) / 1000\<rceil>, st)"
    by (simp add: loginRateLimit_def LOGIN_MAX_ATTEMPTS_def)
  from h show "0 \<le> \<lceil>real_of_int (resetTime a - now) / 1000\<rceil>"
    unfolding retry_after_sign by simp
  show "0 < \<lceil>real_of_int (resetTime a - now) / 1000\<rceil> \<longleftrightarrow> now < resetTime a"
    by (rule retry_after_sign)
next
  assume h: "loginAttempts st (client_address req) = None \<and>
    (\<forall>t \<in> set [t2, t3, t4, t5, t6]. t \<le> t1 + 15 * 60 * 1000)"
  then show "fst (attempts_at [t1, t2, t3, t4, t5, t6] req st) =
        [Next, Next, Next, Next, Next,
         TooManyRequests \<lceil>real_of_int (t1 + 15 * 60 * 1000 - t6) / 1000\<rceil>]"
    by (simp add: loginRateLimit_def LOGIN_RATE_LIMIT_WINDOW_def LOGIN_MAX_ATTEMPTS_def)
  from h show "loginAttempts (snd (attempts_at [t1, t2, t3, t4, t5, t6] req st)) (client_address req) =
        Some \<lparr>count = 5, resetTime = t1 + 15 * 60 * 1000\<rparr>"
    by (simp add: loginRateLimit_def LOGIN_RATE_LIMIT_WINDOW_def LOGIN_MAX_ATTEMPTS_def)
  show "0 < \<lceil>real_of_int (t1 + 15 * 60 * 1000 - t6) / 1000\<rceil> \<longleftrightarrow> t6 < t1 + 15 * 60 * 1000"
    by (rule retry_after_sign)
qed

theorem loginRateLimit_cases_witness:
  "fst (attempts_at [0, 1000, 2000, 3000, 4000, 5500] example_client initial_state) =
     [Next, Next, Next, Next, Next, TooManyRequests 895] \<and>
   loginAttempts (snd (attempts_at [0, 1000, 2000, 3000, 4000, 5500] example_client initial_state))
     (client_address example_client) = Some \<lparr>count = 5, resetTime = 900000\<rparr> \<and>
   fst (loginRateLimit 900001 example_client
          (snd (attempts_at [0, 1000, 2000, 3000, 4000, 5500] example_client initial_state))) = Next"
proof -
  let ?st = "snd (attempts_at [0, 1000, 2000, 3000, 4000, 5500] example_client initial_state)"
  have "fst (attempts_at [0, 1000, 2000, 3000, 4000, 5500] example_client initial_state) =
        [Next, Next, Next, Next, Next,
         TooManyRequests \<lceil>real_of_int (0 + 15 * 60 * 1000 - 5500) / 1000\<rceil>] \<and>
      loginAttempts ?st (client_address example_client) =
        Some \<lparr>count = 5, resetTime = 0 + 15 * 60 * 1000\<rparr> \<and>
      (0 < \<lceil>real_of_int (0 + 15 * 60 * 1000 - 5500) / 1000\<rceil> \<longleftrightarrow> (5500::int) < 0 + 15 * 60 * 1000)"
    by (rule loginRateLimit_cases[THEN conjunct2, THEN conjunct2, THEN conjunct2, THEN conjunct2,
          THEN mp]) (simp add: initial_state_def)
  then have six: "fst (attempts_at [0, 1000, 2000, 3000, 4000, 5500] example_client initial_state) =
     [Next, Next, Next, Next, Next, TooManyRequests 895]"
    and cnt: "loginAttempts ?st (client_address example_client) = Some \<lparr>count = 5, resetTime = 900000\<rparr>"
    by (simp_all del: attempts_at.simps)
  have "loginRateLimit 900001 example_client ?st =
        (Next, ?st\<lparr>loginAttempts := (loginAttempts ?st)
           (client_address example_client \<mapsto> \<lparr>count = 1, resetTime = 900001 + 15 * 60 * 1000\<rparr>)\<rparr>)"
    by (rule loginRateLimit_cases[where a = "\<lparr>count = 5, resetTime = 900000\<rparr>",
          THEN conjunct2, THEN conjunct1, THEN mp])
       (simp add: cnt del: attempts_at.simps)
  then have "fst (loginRateLimit 900001 example_client ?st) = Next"
    by (simp del: attempts_at.simps)
  with six cnt show ?thesis by (simp del: attempts_at.simps)
qed

text \<open>
  Claim C4 as stated fails at the end of the window: a sixth attempt at exactly the reset
  time is still inside the window for the code (\<open>now > resetTime\<close> is false) and is rejected
  with a retry-after of 0, which is not positive.
\<close>

theorem loginRateLimit_zero_retry_after:
  "fst (attempts_at [0, 1000, 2000, 3000, 4000, 900000] example_client initial_state) =
     [Next, Next, Next, Next, Next, TooManyRequests 0]"
  by (simp add: loginRateLimit_def LOGIN_RATE_LIMIT_WINDOW_def LOGIN_MAX_ATTEMPTS_def
      initial_state_def)

subsection \<open>Sessions\<close>

text \<open>The parts of claim C9 about \<open>getSession\<close> hold, whatever the two clock readings are.\<close>

lemma getSession_absent: "sessions st token = None \<Longrightarrow> getSession now token st = (None, st)"
  by (simp add: getSession_def)

lemma session_lifecycle:
  assumes "createSession token now1 now2 st = (s, st')"
  shows "expiresAt s - createdAt s = SESSION_EXPIRY_MS + (now2 - now1)"
    and "sessions st' token = Some s"
    and "now \<le> expiresAt s \<Longrightarrow> getSession now token st' = (Some s, st')"
    and "expiresAt s < now \<Longrightarrow>
           getSession now token st' = (None, st'\<lparr>sessions := (sessions st')(token := None)\<rparr>)"
    and "expiresAt s < now \<Longrightarrow> sessions (snd (getSession now token st')) token = None"
  using assms by (auto simp: createSession_def getSession_def Let_def)

text \<open>
  Claim C9 at two clock readings one millisecond apart: \<open>createSession\<close> calls \<open>Date.now()\<close>
  once for \<open>createdAt\<close> and once more for \<open>expiresAt\<close>, so the record it stores has
  \<open>expiresAt - createdAt\<close> one millisecond above 24 hours.
\<close>

theorem createSession_reads_clock_twice:
  "expiresAt (fst (createSession (str ''ab12'') 1000 1001 initial_state)) -
   createdAt (fst (createSession (str ''ab12'') 1000 1001 initial_state)) = 24 * 60 * 60 * 1000 + 1"
  by (simp add: createSession_def SESSION_EXPIRY_MS_def Let_def)

section \<open>Properties of the drawing validator\<close>

lemma collect_length: "collect rs = Inr xs \<Longrightarrow> length xs = length rs"
proof (induction rs arbitrary: xs)
  case Nil
  then show ?case by simp
next
  case (Cons r rs)
  then show ?case by (cases r) (auto split: sum.splits)
qed

lemma collect_all_Inr: "collect rs = Inr xs \<Longrightarrow> r \<in> set rs \<Longrightarrow> \<exists>x. r = Inr x"
proof (induction rs arbitrary: xs)
  case Nil
  then show ?case by simp
next
  case (Cons a rs)
  then show ?case by (cases a) (auto split: sum.splits)
qed

lemma parse_ZArray_Inr:
  assumes "parse (ZArray s) v = Inr w"
  shows "\<exists>xs ys. v = JArr xs \<and> w = JArr ys \<and> length ys = length xs"
proof -
  from assms obtain xs where v: "v = JArr xs" by (cases v) auto
  with assms obtain ys where ys: "collect (map (parse s) xs) = Inr ys" "w = JArr ys"
    by (auto split: sum.splits)
  from collect_length[OF ys(1)] v ys(2) show ?thesis by simp
qed

lemma parse_ZObject_Inr:
  assumes "parse (ZObject shape u c) v = Inr w"
  shows "\<exists>ps. v = JObj ps"
  using assms by (cases v) auto

lemma sanitizeDrawingData_Inr:
  assumes "sanitizeDrawingData data = Inr r"
  shows "\<exists>xs ys app. property data ''elements'' = JArr xs \<and> elements r = JArr ys \<and>
           length ys = length xs \<and> property data ''appState'' = JObj app"
proof -
  from assms have t: "sanitizeDrawingData_try data = Inr r"
    by (auto simp: sanitizeDrawingData_def split: sum.splits)
  then obtain se sa where se: "parse (ZArray elementSchema) (property data ''elements'') = Inr se"
    and sa: "parse appStateSchema (property data ''appState'') = Inr sa"
    and r: "elements r = se"
    by (auto simp: sanitizeDrawingData_try_def Let_def split: if_splits sum.splits)
  from parse_ZArray_Inr[OF se] sa[unfolded appStateSchema_def, THEN parse_ZObject_Inr] r
  show ?thesis by auto
qed

lemma property_not_object: "(\<forall>ps. data \<noteq> JObj ps) \<Longrightarrow> property data name = JUndefined"
  by (cases data) (auto simp: property_def)

lemma validateImportedDrawing_unfold:
  "validateImportedDrawing data \<longleftrightarrow>
     is_object_or_array data \<and>
     (case property data ''elements'' of
        JArr xs \<Rightarrow>
          typeof_object (property data ''appState'') \<and> length xs \<le> 10000 \<and>
          (case sanitizeDrawingData data of
             Inl e \<Rightarrow> False
           | Inr r \<Rightarrow> (case elements r of JArr ys \<Rightarrow> length ys = length xs | _ \<Rightarrow> False))
      | _ \<Rightarrow> False)"
  by (simp add: validateImportedDrawing_def validateImportedDrawing_try_def
      split: jsvalue.splits sum.splits)

lemma validateImportedDrawing_iff:
  "validateImportedDrawing data \<longleftrightarrow>
     (\<exists>ps xs app r. data = JObj ps \<and> property data ''elements'' = JArr xs \<and>
        property data ''appState'' = JObj app \<and> length xs \<le> 10000 \<and>
        sanitizeDrawingData data = Inr r)"
proof
  assume v: "validateImportedDrawing data"
  then obtain xs where xs: "property data ''elements'' = JArr xs"
    unfolding validateImportedDrawing_unfold
    by (cases "property data ''elements''") auto
  then obtain ps where ps: "data = JObj ps"
    using property_not_object[of data "''elements''"] by auto
  from v xs have len: "length xs \<le> 10000"
    unfolding validateImportedDrawing_unfold by simp
  from v xs obtain r where r: "sanitizeDrawingData data = Inr r"
    unfolding validateImportedDrawing_unfold
    by (cases "sanitizeDrawingData data") auto
  from sanitizeDrawingData_Inr[OF r] obtain app where "property data ''appState'' = JObj app"
    by auto
  with ps xs len r show "\<exists>ps xs app r. data = JObj ps \<and> property data ''elements'' = JArr xs \<and>
        property data ''appState'' = JObj app \<and> length xs \<le> 10000 \<and>
        sanitizeDrawingData data = Inr r"
    by blast
next
  assume "\<exists>ps xs app r. data = JObj ps \<and> property data ''elements'' = JArr xs \<and>
        property data ''appState'' = JObj app \<and> length xs \<le> 10000 \<and>
        sanitizeDrawingData data = Inr r"
  then obtain ps xs app r where h: "data = JObj ps" "property data ''elements'' = JArr xs"
    "property data ''appState'' = JObj app" "length xs \<le> 10000" "sanitizeDrawingData data = Inr r"
    by blast
  from sanitizeDrawingData_Inr[OF h(5)] h(2) obtain ys where "elements r = JArr ys" "length ys = length xs"
    by auto
  with h show "validateImportedDrawing data"
    unfolding validateImportedDrawing_unfold
    by (simp add: is_object_or_array_def typeof_object_def)
qed

lemma collect_Inr_iff: "(\<exists>xs. collect rs = Inr xs) \<longleftrightarrow> (\<forall>r \<in> set rs. \<exists>x. r = Inr x)"
proof (induction rs)
  case Nil
  then show ?case by simp
next
  case (Cons a rs)
  then show ?case by (cases a) (auto split: sum.splits)
qed

lemma with_key_Inr: "(\<exists>y. with_key k r = Inr y) \<longleftrightarrow> (\<exists>x. r = Inr x)"
  by (cases r) (simp_all add: with_key_def)

lemma parse_catchall: "(\<exists>y. parse (ZRefine ZAny catchall_check) v = Inr y) \<longleftrightarrow> catchall_check v"
  by simp

lemma parse_appState_iff:
  "(\<exists>w. parse appStateSchema (JObj app) = Inr w) \<longleftrightarrow>
     (\<exists>qs. declared_fields app = Inr qs) \<and>
     (\<forall>(k, v) \<in> set app. k \<notin> fst ` set appState_shape \<longrightarrow> catchall_check v)"
proof -
  let ?extra = "filter (\<lambda>(k, x). k \<notin> fst ` set appState_shape) app"
  let ?others = "collect (map (\<lambda>(k, x). with_key k (parse (ZRefine ZAny catchall_check) x)) ?extra)"
  have "(\<exists>w. parse appStateSchema (JObj app) = Inr w) \<longleftrightarrow>
        (\<exists>qs. declared_fields app = Inr qs) \<and> (\<exists>rs. ?others = Inr rs)"
    by (auto simp: appStateSchema_def declared_fields_def Let_def split: sum.splits)
  also have "(\<exists>rs. ?others = Inr rs) \<longleftrightarrow>
        (\<forall>(k, v) \<in> set app. k \<notin> fst ` set appState_shape \<longrightarrow> catchall_check v)"
    unfolding collect_Inr_iff
    by (auto simp: with_key_def split: sum.splits if_splits)
  finally show ?thesis .
qed

lemma sanitizeDrawingData_appState_rejected:
  assumes "property data ''appState'' = JObj app"
    and "\<forall>w. parse appStateSchema (JObj app) \<noteq> Inr w"
  shows "sanitizeDrawingData data = Inl (Error ''Invalid or malicious drawing data detected'')"
proof -
  from assms have "\<exists>e. sanitizeDrawingData_try data = Inl e"
    by (cases "parse appStateSchema (JObj app)")
       (auto simp: sanitizeDrawingData_try_def split: sum.splits)
  then show ?thesis by (auto simp: sanitizeDrawingData_def)
qed

lemma unknown_key_foo: "str ''foo'' \<notin> fst ` set appState_shape"
  by (simp add: appState_shape_def str_def)

lemma sanitizeText_short:
  assumes "int (length s) \<le> B" and "\<forall>c \<in> set s. \<not> is_stripped_control c"
  shows "sanitizeText (JStr s) B = sanitizeHtml s"
proof -
  from assms(2) have "filter (\<lambda>c. \<not> is_stripped_control c) s = s" by simp
  with assms(1) show ?thesis
    by (simp add: sanitizeText_def slice0_def replace_control)
qed

lemma script_text_empty: "sanitizeText (JStr (str ''<script>x</script>'')) 1000 = []"
proof -
  have "sanitizeText (JStr (str ''<script>x</script>'')) 1000 = sanitizeHtml (str ''<script>x</script>'')"
    by (rule sanitizeText_short) (simp_all add: str_def is_stripped_control_def)
  also have "\<dots> = []" by (simp add: eval_defs)
  finally show ?thesis .
qed

lemma minimal_element_valid:
  "\<exists>w. parse elementSchema minimal_element = Inr w"
  by (simp add: schema_defs sanitizeUrl_def sanitizeText_def)

lemma property_drawing:
  "property (drawing es app) ''elements'' = JArr es"
  "property (drawing es app) ''appState'' = JObj app"
  by (simp_all add: drawing_def property_def get_prop_def str_def)

lemma validate_drawing:
  assumes "sanitizeDrawingData (drawing es app) = Inr r" and "length es \<le> 10000"
  shows "validateImportedDrawing (drawing es app)"
  unfolding validateImportedDrawing_iff
  using assms property_drawing[of es app] by (auto simp: drawing_def)

lemma script_residue_text: "sanitizeText (JStr (str ''<script>x</script>y'')) 1000 = str ''y''"
proof -
  have "sanitizeText (JStr (str ''<script>x</script>y'')) 1000 = sanitizeHtml (str ''<script>x</script>y'')"
    by (rule sanitizeText_short) (simp_all add: str_def is_stripped_control_def)
  also have "\<dots> = str ''y''" by (simp add: eval_defs)
  finally show ?thesis .
qed

lemma sanitizeDrawingData_appState_kept:
  assumes "parse appStateSchema (JObj app) = Inr w"
  shows "sanitizeDrawingData (drawing [] app) =
           Inr \<lparr>elements = JArr [], appState = w, files = JUndefined, preview = JUndefined\<rparr>"
  using assms
  by (simp add: sanitizeDrawingData_def sanitizeDrawingData_try_def property_drawing
      property_def get_prop_def drawing_def str_def)

lemma parse_undeclared_foo:
  "catchall_check x \<Longrightarrow>
   parse appStateSchema (JObj [(str ''foo'', x)]) = Inr (JObj [(str ''foo'', x)])"
  by (simp add: schema_defs)

text \<open>
  Claim C6 fails: the check of an undeclared app state field is not recursive. The callback
  of \<open>refine\<close> looks at the value of the field itself and returns true for everything that is
  not a string, so a string inside an object (or an array) under an undeclared key is never
  given to \<open>sanitizeText\<close>: the app state \<open>{foo: {bar: '<script>x</script>'}}\<close> is accepted and
  returned as it is, while \<open>{foo: '<script>x</script>'}\<close> makes \<open>sanitizeDrawingData\<close> raise. The
  check does not sanitize either: a string of which \<open>sanitizeText\<close> leaves something passes and
  is returned with its script block (\<open>{foo: '<script>x</script>y'}\<close>), and the empty string is
  rejected.
\<close>

theorem appState_nested_string_not_checked:
  "sanitizeDrawingData
     (drawing [] [(str ''foo'', JObj [(str ''bar'', JStr (str ''<script>x</script>''))])]) =
     Inr \<lparr>elements = JArr [],
          appState = JObj [(str ''foo'', JObj [(str ''bar'', JStr (str ''<script>x</script>''))])],
          files = JUndefined, preview = JUndefined\<rparr> \<and>
   validateImportedDrawing
     (drawing [] [(str ''foo'', JObj [(str ''bar'', JStr (str ''<script>x</script>''))])]) \<and>
   sanitizeDrawingData (drawing [] [(str ''foo'', JStr (str ''<script>x</script>''))]) =
     Inl (Error ''Invalid or malicious drawing data detected'') \<and>
   sanitizeDrawingData (drawing [] [(str ''foo'', JStr (str ''<script>x</script>y''))]) =
     Inr \<lparr>elements = JArr [],
          appState = JObj [(str ''foo'', JStr (str ''<script>x</script>y''))],
          files = JUndefined, preview = JUndefined\<rparr> \<and>
   sanitizeDrawingData (drawing [] [(str ''foo'', JStr [])]) =
     Inl (Error ''Invalid or malicious drawing data detected'')"
proof -
  let ?nested = "[(str ''foo'', JObj [(str ''bar'', JStr (str ''<script>x</script>''))])]"
  let ?plain = "[(str ''foo'', JStr (str ''<script>x</script>''))]"
  let ?residue = "[(str ''foo'', JStr (str ''<script>x</script>y''))]"
  let ?empty = "[(str ''foo'', JStr [])]"
  have 1: "sanitizeDrawingData (drawing [] ?nested) =
     Inr \<lparr>elements = JArr [], appState = JObj ?nested, files = JUndefined, preview = JUndefined\<rparr>"
    by (simp add: schema_defs catchall_check_def)
  have 2: "validateImportedDrawing (drawing [] ?nested)"
    using validate_drawing[OF 1] by simp
  have "\<not> catchall_check (JStr (str ''<script>x</script>''))"
    by (simp add: catchall_check_def script_text_empty)
  then have "\<forall>w. parse appStateSchema (JObj ?plain) \<noteq> Inr w"
    using parse_appState_iff[of ?plain] unknown_key_foo by auto
  from sanitizeDrawingData_appState_rejected[OF property_drawing(2) this]
  have 3: "sanitizeDrawingData (drawing [] ?plain) = Inl (Error ''Invalid or malicious drawing data detected'')" .
  have "catchall_check (JStr (str ''<script>x</script>y''))"
    by (simp add: catchall_check_def script_residue_text, simp add: str_def)
  from parse_undeclared_foo[OF this]
  have 4: "sanitizeDrawingData (drawing [] ?residue) =
     Inr \<lparr>elements = JArr [], appState = JObj ?residue, files = JUndefined, preview = JUndefined\<rparr>"
    by (rule sanitizeDrawingData_appState_kept)
  have "sanitizeText (JStr []) 1000 = []"
    using sanitizeText_short[of "[]" 1000] by (simp add: eval_defs)
  then have "\<not> catchall_check (JStr [])"
    by (simp add: catchall_check_def)
  then have "\<forall>w. parse appStateSchema (JObj ?empty) \<noteq> Inr w"
    using parse_appState_iff[of ?empty] unknown_key_foo by auto
  from sanitizeDrawingData_appState_rejected[OF property_drawing(2) this]
  have 5: "sanitizeDrawingData (drawing [] ?empty) = Inl (Error ''Invalid or malicious drawing data detected'')" .
  from 1 2 3 4 5 show ?thesis by blast
qed






text \<open>
  Claim C5. \<open>validateImportedDrawing\<close> returns a boolean for every input and turns every error
  raised on the way into false. It returns true exactly when the document is an object, its
  \<open>elements\<close> are an array of at most 10000 entries, its \<open>appState\<close> is an object and
  \<open>sanitizeDrawingData\<close> succeeds; so it returns false when the document is not an object,
  when \<open>elements\<close> is not an array, when \<open>appState\<close> is not an object, when there are more
  than 10000 elements (as in a document of 10001 minimal valid elements) and when
  sanitization fails.
\<close>

theorem validateImportedDrawing_returns_boolean:
  "(validateImportedDrawing data \<longleftrightarrow>
      (\<exists>ps xs app r. data = JObj ps \<and> property data ''elements'' = JArr xs \<and>
         property data ''appState'' = JObj app \<and> length xs \<le> 10000 \<and>
         sanitizeDrawingData data = Inr r)) \<and>
   (validateImportedDrawing_try data = Inl e \<longrightarrow> \<not> validateImportedDrawing data) \<and>
   ((\<forall>ps. data \<noteq> JObj ps) \<longrightarrow> \<not> validateImportedDrawing data) \<and>
   ((\<forall>xs. property data ''elements'' \<noteq> JArr xs) \<longrightarrow> \<not> validateImportedDrawing data) \<and>
   ((\<forall>app. property data ''appState'' \<noteq> JObj app) \<longrightarrow> \<not> validateImportedDrawing data) \<and>
   (property data ''elements'' = JArr es \<and> 10000 < length es \<longrightarrow> \<not> validateImportedDrawing data) \<and>
   (sanitizeDrawingData data = Inl e' \<longrightarrow> \<not> validateImportedDrawing data) \<and>
   (\<exists>w. parse elementSchema minimal_element = Inr w) \<and>
   \<not> validateImportedDrawing (drawing (replicate 10001 minimal_element) app')"
proof (intro conjI impI)
  show "validateImportedDrawing data \<longleftrightarrow>
      (\<exists>ps xs app r. data = JObj ps \<and> property data ''elements'' = JArr xs \<and>
         property data ''appState'' = JObj app \<and> length xs \<le> 10000 \<and>
         sanitizeDrawingData data = Inr r)"
    by (rule validateImportedDrawing_iff)
  show "\<not> validateImportedDrawing data" if "validateImportedDrawing_try data = Inl e"
    using that by (simp add: validateImportedDrawing_def)
  show "\<not> validateImportedDrawing data" if "\<forall>ps. data \<noteq> JObj ps"
    using that unfolding validateImportedDrawing_iff by simp
  show "\<not> validateImportedDrawing data" if "\<forall>xs. property data ''elements'' \<noteq> JArr xs"
    using that unfolding validateImportedDrawing_iff by simp
  show "\<not> validateImportedDrawing data" if "\<forall>app. property data ''appState'' \<noteq> JObj app"
    using that unfolding validateImportedDrawing_iff by simp
  show "\<not> validateImportedDrawing data" if "property data ''elements'' = JArr es \<and> 10000 < length es"
    using that unfolding validateImportedDrawing_iff by auto
  show "\<not> validateImportedDrawing data" if "sanitizeDrawingData data = Inl e'"
    using that unfolding validateImportedDrawing_iff by simp
  show "\<exists>w. parse elementSchema minimal_element = Inr w"
    by (rule minimal_element_valid)
  show "\<not> validateImportedDrawing (drawing (replicate 10001 minimal_element) app')"
    unfolding validateImportedDrawing_iff property_drawing by auto
qed

theorem validateImportedDrawing_returns_boolean_witness:
  "\<not> validateImportedDrawing JNull \<and>
   \<not> validateImportedDrawing (JObj [(str ''elements'', JNull), (str ''appState'', JObj [])]) \<and>
   \<not> validateImportedDrawing (drawing (replicate 10001 minimal_element) []) \<and>
   validateImportedDrawing (drawing [minimal_element] [])"
proof -
  have a: "\<not> validateImportedDrawing JNull"
    using validateImportedDrawing_returns_boolean[of JNull] by simp
  have b: "\<not> validateImportedDrawing (JObj [(str ''elements'', JNull), (str ''appState'', JObj [])])"
    using validateImportedDrawing_returns_boolean[of
        "JObj [(str ''elements'', JNull), (str ''appState'', JObj [])]"]
    by (simp add: property_def get_prop_def str_def)
  have c: "\<not> validateImportedDrawing (drawing (replicate 10001 minimal_element) [])"
    using validateImportedDrawing_returns_boolean[of JNull _ _ _ "[]"] by blast
  have "\<exists>r. sanitizeDrawingData (drawing [minimal_element] []) = Inr r"
    by (simp add: schema_defs sanitizeUrl_def sanitizeText_def)
  then have d: "validateImportedDrawing (drawing [minimal_element] [])"
    using validate_drawing[of "[minimal_element]" "[]"] by auto
  from a b c d show ?thesis by simp
qed

end
